theory Spec2Isabelle
  imports Main "HOL-Library.Sublist"
begin

section \<open>Text and the regular expressions of the footer engine\<close>

text \<open>
  Note bodies are lists of characters. A character is one code unit in the range
  0..255; of the characters that the whitespace class of the source's regular
  expressions accepts, these are tab, line feed, vertical tab, form feed, carriage
  return, space and the no-break space.
\<close>

definition is_space :: "char \<Rightarrow> bool" where
  "is_space c \<longleftrightarrow>
     c \<in> set [CHR 0x09, CHR 0x0A, CHR 0x0B, CHR 0x0C, CHR 0x0D, CHR 0x20, CHR 0xA0]"

definition is_id_char :: "char \<Rightarrow> bool" where
  "is_id_char c \<longleftrightarrow> c \<in> set ''ABCDEF0123456789-''"

text \<open>The character classes \<open>\n\<close>, \<open>[^\n]\<close>, \<open>\s\<close> and \<open>[A-F0-9-]\<close>.\<close>

datatype cls = Newline | NotNewline | Space | IdChar

fun in_cls :: "cls \<Rightarrow> char \<Rightarrow> bool" where
  "in_cls Newline c = (c = CHR ''\<newline>'')"
| "in_cls NotNewline c = (c \<noteq> CHR ''\<newline>'')"
| "in_cls Space c = is_space c"
| "in_cls IdChar c = is_id_char c"

text \<open>
  The fragment of regular expressions the source uses: literal text, a greedy
  \<open>*\<close> or \<open>+\<close> over a character class, a greedy optional group \<open>(...)?\<close>,
  concatenation, and the anchor \<open>$\<close> (end of input: no pattern has the multiline flag).
\<close>

datatype regex =
    Str string
  | Star cls
  | Plus cls
  | Opt regex
  | Seq regex regex
  | Eoi

text \<open>
  The backtracking matcher. \<open>ms r s\<close> lists, in the order in which the matcher
  tries them, the texts that remain after \<open>r\<close> has matched at the start of \<open>s\<close>; the
  first element is the match the engine reports. A greedy repetition tries the
  longest run first and gives characters back one at a time.
\<close>

fun star_alts :: "(char \<Rightarrow> bool) \<Rightarrow> string \<Rightarrow> string list" where
  "star_alts P [] = [[]]"
| "star_alts P (c # s) = (if P c then star_alts P s @ [c # s] else [c # s])"

fun plus_alts :: "(char \<Rightarrow> bool) \<Rightarrow> string \<Rightarrow> string list" where
  "plus_alts P [] = []"
| "plus_alts P (c # s) = (if P c then star_alts P s else [])"

fun ms :: "regex \<Rightarrow> string \<Rightarrow> string list" where
  "ms (Str w) s = (if prefix w s then [drop (length w) s] else [])"
| "ms (Star k) s = star_alts (in_cls k) s"
| "ms (Plus k) s = plus_alts (in_cls k) s"
| "ms (Opt r) s = ms r s @ [s]"
| "ms (Seq a b) s = concat (map (ms b) (ms a s))"
| "ms Eoi s = (if s = [] then [[]] else [])"

fun seqs :: "regex list \<Rightarrow> regex" where
  "seqs [] = Str []"
| "seqs [r] = r"
| "seqs (r # rs) = Seq r (seqs rs)"

text \<open>
  \<open>String.prototype.replace\<close> with a pattern that has no \<open>g\<close> flag: the leftmost
  match is replaced, the rest of the text is kept.
\<close>

fun replace_first :: "regex \<Rightarrow> string \<Rightarrow> string \<Rightarrow> string" where
  "replace_first r rep [] = (case ms r [] of t # _ \<Rightarrow> rep @ t | [] \<Rightarrow> [])"
| "replace_first r rep (c # s) =
     (case ms r (c # s) of t # _ \<Rightarrow> rep @ t | [] \<Rightarrow> c # replace_first r rep s)"

text \<open>
  \<open>replace\<close> with the \<open>g\<close> flag: every match is replaced, scanning from the left
  and resuming after each match; after an empty match the scan moves on by one
  character.
\<close>

function replace_all :: "regex \<Rightarrow> string \<Rightarrow> string \<Rightarrow> string" where
  "replace_all r rep s =
     (case ms r s of
        [] \<Rightarrow> (case s of [] \<Rightarrow> [] | c # s' \<Rightarrow> c # replace_all r rep s')
      | t # _ \<Rightarrow>
          if length t < length s then rep @ replace_all r rep t
          else rep @ (case s of [] \<Rightarrow> [] | c # s' \<Rightarrow> c # replace_all r rep s'))"
  by pat_completeness auto
termination
  by (relation "measure (\<lambda>(r, rep, s). length s)") auto

text \<open>
  \<open>String.prototype.match\<close> without the \<open>g\<close> flag: the text of the leftmost match.
\<close>

fun find_match :: "regex \<Rightarrow> string \<Rightarrow> string option" where
  "find_match r [] = (case ms r [] of t # _ \<Rightarrow> Some [] | [] \<Rightarrow> None)"
| "find_match r (c # s) =
     (case ms r (c # s) of
        t # _ \<Rightarrow> Some (take (length (c # s) - length t) (c # s))
      | [] \<Rightarrow> find_match r s)"

section \<open>Identity marker: detection\<close>

text \<open>The pattern \<open><!-- Note ID: ([A-F0-9-]+) -->\<close>.\<close>

definition noteIdPattern :: regex where
  "noteIdPattern = seqs [Str ''<!-- Note ID: '', Plus IdChar, Str '' -->'']"

text \<open>
  \<open>detectNoteId\<close> (the same in \<open>Create\<close>, \<open>UpdateText\<close>, \<open>BatchUpdate\<close> and \<open>Search\<close>):
  the first capture group of the leftmost match, which is the matched text without
  the two literal delimiters around the group; \<open>null\<close> is \<open>None\<close>.
\<close>

definition detectNoteId :: "string \<Rightarrow> string option" where
  "detectNoteId content =
     (case find_match noteIdPattern content of
        None \<Rightarrow> None
      | Some m \<Rightarrow> Some (take (length m - length ''<!-- Note ID: '' - length '' -->'')
                          (drop (length ''<!-- Note ID: '') m)))"

section \<open>Footer stripping\<close>

text \<open>The four patterns of \<open>stripExistingFooter\<close>, as written in \<open>Create\<close>.\<close>

definition footerPattern :: regex where
  "footerPattern = seqs
     [Str ''\<newline>\<newline>---\<newline>*Created:'', Star NotNewline, Str ''\<newline>'',
      Opt (seqs [Str ''*Last Updated:'', Star NotNewline, Str ''\<newline>'']),
      Str ''<!-- Note ID: '', Plus IdChar, Str '' -->'', Star Space, Eoi]"

definition standalonePattern :: regex where
  "standalonePattern = seqs
     [Star Newline, Str ''<!-- Note ID: '', Plus IdChar, Str '' -->'', Star Space]"

definition separatorPattern :: regex where
  "separatorPattern = seqs [Str ''\<newline>\<newline>---'', Star Space, Eoi]"

definition newlinesPattern :: regex where
  "newlinesPattern = seqs [Str ''\<newline>'', Plus Newline, Eoi]"

definition Create_stripExistingFooter :: "string \<Rightarrow> string" where
  "Create_stripExistingFooter content =
     (let cleaned = content;
          cleaned = replace_first footerPattern [] cleaned;
          cleaned = replace_all standalonePattern [] cleaned;
          cleaned = replace_all separatorPattern [] cleaned;
          cleaned = replace_all newlinesPattern ''\<newline>'' cleaned
      in cleaned)"

text \<open>The copy in the enhanced \<open>UpdateText\<close> command.\<close>

definition UpdateText_stripExistingFooter :: "string \<Rightarrow> string" where
  "UpdateText_stripExistingFooter content =
     (let cleaned = content;
          footerPattern' = seqs
            [Str ''\<newline>\<newline>---\<newline>*Created:'', Star NotNewline, Str ''\<newline>'',
             Opt (seqs [Str ''*Last Updated:'', Star NotNewline, Str ''\<newline>'']),
             Str ''<!-- Note ID: '', Plus IdChar, Str '' -->'', Star Space, Eoi];
          cleaned = replace_first footerPattern' [] cleaned;
          cleaned = replace_all
            (seqs [Star Newline, Str ''<!-- Note ID: '', Plus IdChar, Str '' -->'', Star Space])
            [] cleaned;
          cleaned = replace_all (seqs [Str ''\<newline>\<newline>---'', Star Space, Eoi]) [] cleaned;
          cleaned = replace_all (seqs [Str ''\<newline>'', Plus Newline, Eoi]) ''\<newline>'' cleaned
      in cleaned)"

text \<open>The copy in the \<open>BatchUpdate\<close> command.\<close>

definition BatchUpdate_stripExistingFooter :: "string \<Rightarrow> string" where
  "BatchUpdate_stripExistingFooter content =
     (let cleaned = content;
          footerPattern' = seqs
            [Str ''\<newline>\<newline>---\<newline>*Created:'', Star NotNewline, Str ''\<newline>'',
             Opt (seqs [Str ''*Last Updated:'', Star NotNewline, Str ''\<newline>'']),
             Str ''<!-- Note ID: '', Plus IdChar, Str '' -->'', Star Space, Eoi];
          cleaned = replace_first footerPattern' [] cleaned;
          cleaned = replace_all
            (seqs [Star Newline, Str ''<!-- Note ID: '', Plus IdChar, Str '' -->'', Star Space])
            [] cleaned;
          cleaned = replace_all (seqs [Str ''\<newline>\<newline>---'', Star Space, Eoi]) [] cleaned;
          cleaned = replace_all (seqs [Str ''\<newline>'', Plus Newline, Eoi]) ''\<newline>'' cleaned
      in cleaned)"

section \<open>Timestamps\<close>

text \<open>
  \<open>new Date()\<close> is an input of the model. Of a \<open>Date\<close> the code reads three things:
  \<open>toLocaleString("en-US", options)\<close> (weekday, month, day, year, hour and minute in
  12-hour form), \<open>toLocaleDateString("en-US", ...)\<close> with a time-zone name (the legacy
  path of \<open>UpdateText\<close>), and \<open>getTimezoneOffset()\<close>, in minutes. The two locale
  renderings are library output and are kept as text.
\<close>

record date =
  localeString :: string
  localeDateString :: string
  timezoneOffset :: int

text \<open>
  \<open>Number.prototype.toString\<close> on a non-negative integer: decimal digits without
  leading zeros (the values here are hours and minutes of a time-zone offset, far
  below the magnitude at which the source language switches to exponent notation).
\<close>

definition digit_char :: "nat \<Rightarrow> char" where
  "digit_char d = ''0123456789'' ! d"

fun toString :: "nat \<Rightarrow> string" where
  "toString n = (if n < 10 then [digit_char n] else toString (n div 10) @ [digit_char (n mod 10)])"

declare toString.simps [simp del]

text \<open>\<open>padStart(n, "0")\<close>: pad on the left with zeros up to length \<open>n\<close>.\<close>

definition padStart :: "nat \<Rightarrow> char \<Rightarrow> string \<Rightarrow> string" where
  "padStart n c s = replicate (n - length s) c @ s"

text \<open>\<open>buildGMTOffset\<close> (the same in \<open>Create\<close>, \<open>UpdateText\<close> and \<open>BatchUpdate\<close>).\<close>

definition buildGMTOffset :: "date \<Rightarrow> string" where
  "buildGMTOffset d =
     (let offsetMinutes = - timezoneOffset d;
          sign = (if offsetMinutes \<ge> 0 then ''+'' else ''-'');
          absOffset = nat \<bar>offsetMinutes\<bar>;
          hours = absOffset div 60;
          minutes = absOffset mod 60
      in if minutes = 0 then ''GMT'' @ sign @ toString hours
         else ''GMT'' @ sign @ toString hours @ '':'' @ padStart 2 (CHR ''0'') (toString minutes))"

text \<open>The local function \<open>formatDate\<close> of the footer builders.\<close>

definition formatDate :: "date \<Rightarrow> string" where
  "formatDate d = (let formatted = localeString d; offset = buildGMTOffset d
                   in formatted @ '' '' @ offset)"

section \<open>Footer builders\<close>

text \<open>\<open>Create.buildNewNoteFooter\<close>: Created only, no Last Updated.\<close>

definition Create_buildNewNoteFooter :: "date \<Rightarrow> string \<Rightarrow> bool \<Rightarrow> bool \<Rightarrow> string" where
  "Create_buildNewNoteFooter now noteId includeCreated includeId =
     (let footer = ''\<newline>\<newline>---'';
          footer = (if includeCreated
                    then (let createdLine = ''*Created: '' @ formatDate now @ ''*''
                          in footer @ ''\<newline>'' @ createdLine)
                    else footer);
          footer = (if includeId
                    then (let idLine = ''<!-- Note ID: '' @ noteId @ '' -->''
                          in footer @ ''\<newline>'' @ idLine)
                    else footer)
      in footer)"

text \<open>\<open>BatchUpdate.buildNewNoteFooter\<close>.\<close>

definition BatchUpdate_buildNewNoteFooter :: "date \<Rightarrow> string \<Rightarrow> bool \<Rightarrow> bool \<Rightarrow> string" where
  "BatchUpdate_buildNewNoteFooter now noteId includeCreated includeId =
     (let footer = ''\<newline>\<newline>---'';
          footer = (if includeCreated
                    then (let createdLine = ''*Created: '' @ formatDate now @ ''*''
                          in footer @ ''\<newline>'' @ createdLine)
                    else footer);
          footer = (if includeId
                    then (let idLine = ''<!-- Note ID: '' @ noteId @ '' -->''
                          in footer @ ''\<newline>'' @ idLine)
                    else footer)
      in footer)"

text \<open>\<open>BatchUpdate.buildUpdateFooter\<close>: Created and Last Updated, both stamped now.\<close>

definition BatchUpdate_buildUpdateFooter :: "date \<Rightarrow> string \<Rightarrow> bool \<Rightarrow> bool \<Rightarrow> string" where
  "BatchUpdate_buildUpdateFooter now noteId includeCreated includeId =
     (let footer = ''\<newline>\<newline>---'';
          footer = (if includeCreated
                    then (let createdLine = ''*Created: '' @ formatDate now @ ''*'';
                              updatedLine = ''*Last Updated: '' @ formatDate now @ ''*''
                          in footer @ ''\<newline>'' @ createdLine @ ''\<newline>'' @ updatedLine)
                    else footer);
          footer = (if includeId
                    then (let idLine = ''<!-- Note ID: '' @ noteId @ '' -->''
                          in footer @ ''\<newline>'' @ idLine)
                    else footer)
      in footer)"

text \<open>
  \<open>UpdateText.buildStandardizedFooter\<close>; the optional \<open>createdDate\<close> argument is never
  passed by the caller, so \<open>created\<close> is \<open>now\<close>.
\<close>

definition UpdateText_buildStandardizedFooter :: "date \<Rightarrow> string \<Rightarrow> string" where
  "UpdateText_buildStandardizedFooter now noteId =
     (let created = now;
          createdLine = ''*Created: '' @ formatDate created @ ''*'';
          updatedLine = ''*Last Updated: '' @ formatDate now @ ''*'';
          idLine = ''<!-- Note ID: '' @ noteId @ '' -->''
      in ''\<newline>\<newline>---\<newline>'' @ createdLine @ ''\<newline>'' @ updatedLine @ ''\<newline>'' @ idLine)"

section \<open>The world outside the engine\<close>

text \<open>
  The remote note store, the file system and the clock are inputs of the model. A
  call that throws (a rejected promise, a failing file operation) is \<open>None\<close> or
  \<open>False\<close>. Every effect the commands perform on the store or on a file is recorded,
  in order, as an event. Of the lines the commands log, the trace keeps those of the
  identifier comparison in \<open>UpdateText\<close>; the informational lines are left out.
  The world answers a call from the arguments of the call alone, and every
  \<open>new Date()\<close> of a run reads the same instant.
\<close>

record world =
  clock :: date
  fs_read :: "string \<Rightarrow> string option"
  fs_write :: "string \<Rightarrow> string \<Rightarrow> bool"
  bear_open_note :: "string \<Rightarrow> string option"
  bear_search :: "string \<Rightarrow> (string \<times> string) list option"
  bear_add_text :: "string option \<Rightarrow> string option \<Rightarrow> string option \<Rightarrow> string \<Rightarrow> bool"
  bear_create :: "string option \<Rightarrow> string option"

datatype event =
    OpenNote string
  | Search string
  | AddText "string option" "string option" "string option" string
  | CreateNote "string option"
  | WriteFile string string
  | LogIdMismatch string string
  | LogContinueWithCurrent
  | LogIdConfirmed
  | LogWriteBackFailed

text \<open>Truthiness of an optional string: \<open>undefined\<close>, \<open>null\<close> and \<open>""\<close> are falsy.\<close>

definition truthy :: "string option \<Rightarrow> bool" where
  "truthy x = (case x of None \<Rightarrow> False | Some s \<Rightarrow> s \<noteq> [])"

section \<open>The batch driver\<close>

record batch_flags =
  creation_date :: bool
  add_id :: bool
  write_back :: bool
  dry_run :: bool
  mode :: "string option"

record counts =
  processed :: nat
  updated :: nat
  created :: nat
  skipped :: nat
  errors :: nat

text \<open>The body that \<open>BatchUpdate.updateNote\<close> sends and writes back.\<close>

definition BatchUpdate_updateNote_enhanced :: "date \<Rightarrow> batch_flags \<Rightarrow> string \<Rightarrow> string \<Rightarrow> string" where
  "BatchUpdate_updateNote_enhanced now flags noteId content =
     (let enhancedContent = content
      in if creation_date flags \<or> add_id flags
         then (let enhancedContent = BatchUpdate_stripExistingFooter enhancedContent
               in enhancedContent @
                  BatchUpdate_buildUpdateFooter now noteId (creation_date flags) (add_id flags))
         else enhancedContent)"

text \<open>
  \<open>BatchUpdate.updateNote\<close>: the events performed, and whether the call returned
  (\<open>True\<close>) or threw (\<open>False\<close>).
\<close>

definition BatchUpdate_updateNote ::
  "world \<Rightarrow> batch_flags \<Rightarrow> string \<Rightarrow> string \<Rightarrow> string \<Rightarrow> event list \<times> bool" where
  "BatchUpdate_updateNote w flags filePath noteId content =
     (let enhancedContent = BatchUpdate_updateNote_enhanced (clock w) flags noteId content;
          m = (if truthy (mode flags) then the (mode flags) else ''replace_all'');
          call = AddText (Some noteId) None (Some enhancedContent) m
      in if \<not> bear_add_text w (Some noteId) None (Some enhancedContent) m then ([call], False)
         else if write_back flags
         then ([call, WriteFile filePath enhancedContent], fs_write w filePath enhancedContent)
         else ([call], True))"

text \<open>The body that \<open>BatchUpdate.createNote\<close> sends and writes back.\<close>

definition BatchUpdate_createNote_enhanced :: "date \<Rightarrow> batch_flags \<Rightarrow> string \<Rightarrow> string \<Rightarrow> string" where
  "BatchUpdate_createNote_enhanced now flags noteId content =
     (let enhancedContent = BatchUpdate_stripExistingFooter content
      in if creation_date flags \<or> add_id flags
         then enhancedContent @
              BatchUpdate_buildNewNoteFooter now noteId (creation_date flags) (add_id flags)
         else enhancedContent)"

definition BatchUpdate_createNote ::
  "world \<Rightarrow> batch_flags \<Rightarrow> string \<Rightarrow> string \<Rightarrow> string \<Rightarrow> event list \<times> bool" where
  "BatchUpdate_createNote w flags filePath noteId content =
     (let enhancedContent = BatchUpdate_createNote_enhanced (clock w) flags noteId content;
          call = CreateNote (Some enhancedContent)
      in if bear_create w (Some enhancedContent) = None then ([call], False)
         else if write_back flags
         then ([call, WriteFile filePath enhancedContent], fs_write w filePath enhancedContent)
         else ([call], True))"

text \<open>\<open>BatchUpdate.noteExists\<close>: any error of \<open>open-note\<close> means that the note does not exist.\<close>

definition BatchUpdate_noteExists :: "world \<Rightarrow> string \<Rightarrow> bool" where
  "BatchUpdate_noteExists w noteId = (bear_open_note w noteId \<noteq> None)"

text \<open>
  One iteration of the loop of \<open>BatchUpdate.run\<close>, with its \<open>try\<close>/\<open>catch\<close>: the state
  is the five counters and the trace so far.
\<close>

definition BatchUpdate_processFile ::
  "world \<Rightarrow> batch_flags \<Rightarrow> string \<Rightarrow> counts \<times> event list \<Rightarrow> counts \<times> event list" where
  "BatchUpdate_processFile w flags file st =
     (let c = fst st; tr = snd st
      in case fs_read w file of
           None \<Rightarrow> (c\<lparr>errors := errors c + 1\<rparr>, tr)
         | Some content \<Rightarrow>
             let noteId = detectNoteId content
             in if \<not> truthy noteId then (c\<lparr>skipped := skipped c + 1\<rparr>, tr)
                else if dry_run flags then (c\<lparr>processed := processed c + 1\<rparr>, tr)
                else if \<not> BatchUpdate_noteExists w (the noteId)
                then (case BatchUpdate_createNote w flags file (the noteId) content of
                        (ev, ok) \<Rightarrow>
                          if ok
                          then (c\<lparr>created := created c + 1, processed := processed c + 1\<rparr>,
                                tr @ [OpenNote (the noteId)] @ ev)
                          else (c\<lparr>errors := errors c + 1\<rparr>, tr @ [OpenNote (the noteId)] @ ev))
                else (case BatchUpdate_updateNote w flags file (the noteId) content of
                        (ev, ok) \<Rightarrow>
                          if ok
                          then (c\<lparr>updated := updated c + 1, processed := processed c + 1\<rparr>,
                                tr @ [OpenNote (the noteId)] @ ev)
                          else (c\<lparr>errors := errors c + 1\<rparr>, tr @ [OpenNote (the noteId)] @ ev)))"

fun BatchUpdate_loop ::
  "world \<Rightarrow> batch_flags \<Rightarrow> string list \<Rightarrow> counts \<times> event list \<Rightarrow> counts \<times> event list" where
  "BatchUpdate_loop w flags [] st = st"
| "BatchUpdate_loop w flags (file # files) st =
     BatchUpdate_loop w flags files (BatchUpdate_processFile w flags file st)"

text \<open>
  \<open>BatchUpdate.run\<close> on the files that \<open>findMarkdownFiles\<close> returned: the final
  counters and the trace.
\<close>

definition BatchUpdate_run :: "world \<Rightarrow> batch_flags \<Rightarrow> string list \<Rightarrow> counts \<times> event list" where
  "BatchUpdate_run w flags files =
     (let start = (\<lparr>processed = 0, updated = 0, created = 0, skipped = 0, errors = 0\<rparr>, [])
      in if length files = 0 then start else BatchUpdate_loop w flags files start)"

section \<open>The single-file commands\<close>

text \<open>
  \<open>writeBackToFile\<close> (the same in \<open>Create\<close> and \<open>UpdateText\<close>): a failing write is
  caught and logged as a warning. Paths are taken as given; expanding a leading
  \<open>~\<close> and resolving against the working directory belong to the file system.
\<close>

definition writeBackToFile :: "world \<Rightarrow> string \<Rightarrow> string \<Rightarrow> event list" where
  "writeBackToFile w filePath content =
     (if fs_write w filePath content then [WriteFile filePath content]
      else [WriteFile filePath content, LogWriteBackFailed])"

subsection \<open>\<open>Create\<close>\<close>

text \<open>
  The flags of \<open>Create\<close> that the footer engine reads. Tags, the attached file and
  the window options are passed to the store unchanged and are not part of the
  events.
\<close>

record create_flags =
  cf_creation_date :: bool
  cf_add_id :: bool
  cf_content_file :: "string option"
  cf_write_back :: bool

text \<open>The body that \<open>Create.updateExistingNote\<close> sends and writes back.\<close>

definition Create_updateExistingNote_enhanced :: "date \<Rightarrow> create_flags \<Rightarrow> string \<Rightarrow> string \<Rightarrow> string" where
  "Create_updateExistingNote_enhanced now flags noteId content =
     (let enhancedContent = content
      in if cf_creation_date flags \<or> cf_add_id flags
         then (let enhancedContent = Create_stripExistingFooter enhancedContent;
                   footer = ''\<newline>\<newline>---'';
                   footer = (if cf_creation_date flags
                             then (let createdLine = ''*Created: '' @ formatDate now @ ''*'';
                                       updatedLine = ''*Last Updated: '' @ formatDate now @ ''*''
                                   in footer @ ''\<newline>'' @ createdLine @ ''\<newline>'' @ updatedLine)
                             else footer);
                   footer = (if cf_add_id flags
                             then (let idLine = ''<!-- Note ID: '' @ noteId @ '' -->''
                                   in footer @ ''\<newline>'' @ idLine)
                             else footer)
               in enhancedContent @ footer)
         else enhancedContent)"

definition Create_updateExistingNote ::
  "world \<Rightarrow> create_flags \<Rightarrow> string \<Rightarrow> string \<Rightarrow> event list \<times> bool" where
  "Create_updateExistingNote w flags noteId content =
     (let enhancedContent = Create_updateExistingNote_enhanced (clock w) flags noteId content;
          call = AddText (Some noteId) None (Some enhancedContent) ''replace_all''
      in if \<not> bear_add_text w (Some noteId) None (Some enhancedContent) ''replace_all''
         then ([call], False)
         else if cf_write_back flags \<and> truthy (cf_content_file flags)
         then (call # writeBackToFile w (the (cf_content_file flags)) enhancedContent, True)
         else ([call], True))"

text \<open>
  \<open>Create.run\<close>. The argument is \<open>args.text\<close> after \<open>argsWithPipe\<close>; the result is the
  trace and whether the command returned (\<open>True\<close>) or ended with an error.
\<close>

definition Create_run :: "world \<Rightarrow> create_flags \<Rightarrow> string option \<Rightarrow> event list \<times> bool" where
  "Create_run w flags argText =
     (case (if truthy (cf_content_file flags)
            then map_option Some (fs_read w (the (cf_content_file flags)))
            else Some argText) of
        None \<Rightarrow> ([], False)
      | Some text \<Rightarrow>
          if truthy text \<and> truthy (detectNoteId (the text))
          then Create_updateExistingNote w flags (the (detectNoteId (the text))) (the text)
          else (case bear_create w text of
                  None \<Rightarrow> ([CreateNote text], False)
                | Some noteId \<Rightarrow>
                    if (cf_creation_date flags \<or> cf_add_id flags) \<and> noteId \<noteq> []
                    then (let enhancedContent = (if truthy text then the text else []);
                              enhancedContent = Create_stripExistingFooter enhancedContent;
                              enhancedContent = enhancedContent @
                                Create_buildNewNoteFooter (clock w) noteId
                                  (cf_creation_date flags) (cf_add_id flags);
                              call = AddText (Some noteId) None (Some enhancedContent) ''replace_all''
                          in if \<not> bear_add_text w (Some noteId) None (Some enhancedContent)
                                    ''replace_all''
                             then ([CreateNote text, call], False)
                             else if cf_write_back flags \<and> truthy (cf_content_file flags)
                             then (CreateNote text # call #
                                   writeBackToFile w (the (cf_content_file flags)) enhancedContent,
                                   True)
                             else ([CreateNote text, call], True))
                    else ([CreateNote text], True)))"

subsection \<open>The enhanced \<open>UpdateText\<close>\<close>

text \<open>
  The flags of \<open>UpdateText\<close> that decide the identifier, the body and the write-back.
  The remaining flags (\<open>timestamp\<close>, \<open>new-line\<close>, window options, \<open>header\<close>, \<open>tag\<close>) are
  copied into the parameters of the store call and are not part of the events.
\<close>

record update_flags =
  uf_id :: "string option"
  uf_title :: "string option"
  uf_search_term :: "string option"
  uf_content_file :: "string option"
  uf_mode :: "string option"
  uf_creation_date :: bool
  uf_add_id :: bool
  uf_write_back :: bool
  uf_no_confirm :: bool

text \<open>\<open>UpdateText.enhanceContent\<close>, with its legacy path.\<close>

definition UpdateText_enhanceContent :: "date \<Rightarrow> string \<Rightarrow> string \<Rightarrow> update_flags \<Rightarrow> string" where
  "UpdateText_enhanceContent now content noteId flags =
     (let enhancedContent = content
      in if uf_creation_date flags \<and> uf_add_id flags \<and> noteId \<noteq> []
         then (let enhancedContent = UpdateText_stripExistingFooter enhancedContent
               in enhancedContent @ UpdateText_buildStandardizedFooter now noteId)
         else (let hasCreationDate =
                     (find_match (seqs [Str ''---'', Star Space, Str ''*Created:'']) content \<noteq> None);
                   hasNoteId = (find_match (Str ''<!-- Note ID:'') content \<noteq> None);
                   enhancedContent =
                     (if uf_creation_date flags \<and> \<not> hasCreationDate
                      then enhancedContent @ ''\<newline>\<newline>---\<newline>*Created: '' @
                           localeDateString now @ ''*''
                      else enhancedContent);
                   enhancedContent =
                     (if uf_add_id flags \<and> noteId \<noteq> [] \<and> \<not> hasNoteId
                      then enhancedContent @ ''\<newline><!-- Note ID: '' @ noteId @ '' -->''
                      else enhancedContent)
               in enhancedContent))"

text \<open>
  Which note: \<open>--id\<close>, else the marker embedded in the content, else the first search
  result. \<open>None\<close> is a fatal error (a failing search, or no note specified).
\<close>

definition UpdateText_findNote ::
  "world \<Rightarrow> update_flags \<Rightarrow> string option \<Rightarrow> event list \<times> (string option \<times> string option) option" where
  "UpdateText_findNote w flags content =
     (let noteId = uf_id flags;
          noteTitle = uf_title flags;
          noteId = (if \<not> truthy noteId \<and> truthy content
                    then (let embedded = detectNoteId (the content)
                          in if truthy embedded then embedded else noteId)
                    else noteId)
      in if \<not> truthy noteId \<and> \<not> truthy noteTitle \<and> truthy (uf_search_term flags)
         then (case bear_search w (the (uf_search_term flags)) of
                 None \<Rightarrow> ([Search (the (uf_search_term flags))], None)
               | Some [] \<Rightarrow> ([Search (the (uf_search_term flags))], None)
               | Some ((i, t) # _) \<Rightarrow>
                   if \<not> truthy (Some i) \<and> \<not> truthy (Some t)
                   then ([Search (the (uf_search_term flags))], None)
                   else ([Search (the (uf_search_term flags))], Some (Some i, Some t)))
         else if \<not> truthy noteId \<and> \<not> truthy noteTitle then ([], None)
         else ([], Some (noteId, noteTitle)))"

text \<open>
  The comparison of the working identifier with the marker embedded in the note's
  current content, which \<open>getNoteContent\<close> reads from the store (an error there
  gives the empty text).
\<close>

definition UpdateText_checkEmbedded :: "world \<Rightarrow> update_flags \<Rightarrow> string option \<Rightarrow> event list" where
  "UpdateText_checkEmbedded w flags noteId =
     (if truthy noteId
      then (let currentContent = (case bear_open_note w (the noteId) of None \<Rightarrow> [] | Some n \<Rightarrow> n);
                detectedId = detectNoteId currentContent
            in OpenNote (the noteId) #
               (if truthy detectedId \<and> detectedId \<noteq> noteId
                then LogIdMismatch (the detectedId) (the noteId) #
                     (if \<not> uf_no_confirm flags then [LogContinueWithCurrent] else [])
                else if truthy detectedId \<and> detectedId = noteId then [LogIdConfirmed]
                else []))
      else [])"

text \<open>
  \<open>UpdateText.run\<close>. The argument is \<open>args.content\<close> after \<open>argsWithPipe\<close>; the result is
  the trace and whether the command returned (\<open>True\<close>) or ended with an error.
\<close>

definition UpdateText_run :: "world \<Rightarrow> update_flags \<Rightarrow> string option \<Rightarrow> event list \<times> bool" where
  "UpdateText_run w flags argContent =
     (case (if truthy (uf_content_file flags)
            then map_option Some (fs_read w (the (uf_content_file flags)))
            else Some argContent) of
        None \<Rightarrow> ([], False)
      | Some content \<Rightarrow>
          (case UpdateText_findNote w flags content of
             (ev1, None) \<Rightarrow> (ev1, False)
           | (ev1, Some (noteId, noteTitle)) \<Rightarrow>
               let ev2 = UpdateText_checkEmbedded w flags noteId;
                   enhanced =
                     (if truthy content
                      then Some (UpdateText_enhanceContent (clock w) (the content)
                                   (if truthy noteId then the noteId else []) flags)
                      else content);
                   ev3 = (if truthy content \<and> uf_write_back flags \<and> truthy (uf_content_file flags)
                          then writeBackToFile w (the (uf_content_file flags)) (the enhanced)
                          else []);
                   m = (if truthy (uf_mode flags) then the (uf_mode flags) else ''replace_all'');
                   call = AddText noteId noteTitle enhanced m
               in (ev1 @ ev2 @ ev3 @ [call], bear_add_text w noteId noteTitle enhanced m)))"

section \<open>Sample inputs\<close>

definition sample_date :: date where
  "sample_date = \<lparr>localeString = ''Wed, Oct 15, 2025, 05:51 PM'',
                   localeDateString = ''Wed, Oct 15, 2025, 05:51 PM GMT+2'',
                   timezoneOffset = - 120\<rparr>"

text \<open>
  A store that holds the note \<open>AB-1\<close> (without a marker in its text) and accepts every
  call, and a file system with three files.
\<close>

definition sample_world :: world where
  "sample_world =
     \<lparr>clock = sample_date,
      fs_read = (\<lambda>p. if p = ''a.md'' then Some ''Plain text''
                     else if p = ''b.md'' then Some ''Body\<newline><!-- Note ID: AB-1 -->''
                     else if p = ''c.md'' then Some ''Body\<newline><!-- Note ID: CD-2 -->''
                     else None),
      fs_write = (\<lambda>p c. True),
      bear_open_note = (\<lambda>i. if i = ''AB-1'' then Some ''Body'' else None),
      bear_search = (\<lambda>t. Some []),
      bear_add_text = (\<lambda>i t b m. True),
      bear_create = (\<lambda>b. Some ''EF-3'')\<rparr>"

text \<open>The same world with a store that rejects every \<open>add-text\<close>.\<close>

definition failing_world :: world where
  "failing_world = sample_world\<lparr>bear_add_text := (\<lambda>i t b m. False)\<rparr>"

text \<open>The same world with files that cannot be written, and the flags of a batch run.\<close>

definition readonly_world :: world where
  "readonly_world = sample_world\<lparr>fs_write := (\<lambda>p c. False)\<rparr>"

definition c7_flags :: batch_flags where
  "c7_flags = \<lparr>creation_date = True, add_id = True, write_back = True, dry_run = False, mode = None\<rparr>"

definition c7_created :: string where
  "c7_created = ''Body\<newline>\<newline>---\<newline>*Created: Wed, Oct 15, 2025, 05:51 PM GMT+2*\<newline><!-- Note ID: CD-2 -->''"

section \<open>Vocabulary of the properties\<close>

text \<open>
  A well-formed identifier: a non-empty token over \<open>[A-F0-9-]\<close>.
\<close>

definition id_ok :: "string \<Rightarrow> bool" where
  "id_ok i \<longleftrightarrow> i \<noteq> [] \<and> list_all is_id_char i"


text \<open>
  The beginning of a marker: a non-empty text that is an identity marker or that
  further text completes into one, such as \<open><\<close>, \<open><!-- Note\<close> or
  \<open><!-- Note ID: AB-1 -\<close>.
\<close>

definition begins_marker :: "string \<Rightarrow> bool" where
  "begins_marker q \<longleftrightarrow> q \<noteq> [] \<and>
     (if length q \<le> length ''<!-- Note ID: '' then prefix q ''<!-- Note ID: ''
      else prefix ''<!-- Note ID: '' q \<and>
           (let r = drop (length ''<!-- Note ID: '') q; w = dropWhile is_id_char r
            in w = [] \<or> (w \<noteq> r \<and> prefix w '' -->'')))"

text \<open>
  The character \<open>d\<close> continues a marker that the text \<open>u\<close> began: some non-empty end
  of \<open>u\<close>, followed by \<open>d\<close>, is the beginning of a marker.
\<close>

definition continues_marker :: "string \<Rightarrow> char \<Rightarrow> bool" where
  "continues_marker u d \<longleftrightarrow> list_ex (\<lambda>q. q \<noteq> [] \<and> begins_marker (q @ [d])) (suffixes u)"

text \<open>
  The text that is left when the stray-marker matches that start right at the
  beginning of a text, one directly after the other, are skipped.
\<close>

function after_matches :: "string \<Rightarrow> string" where
  "after_matches s =
     (case ms standalonePattern s of
        [] \<Rightarrow> s
      | t # _ \<Rightarrow> if length t < length s then after_matches t else s)"
  by pat_completeness auto
termination
  by (relation "measure length") auto

declare after_matches.simps [simp del]

text \<open>
  The markers of a body stand apart: wherever the stray-marker pattern of the
  stripper matches (at a marker, or at the newlines before a marker), the text
  \<open>t\<close> after the match, once the matches directly following are skipped, is empty
  or starts with a character that does not continue a marker begun by the text \<open>u\<close>
  before the match.
\<close>

definition rest_ok :: "string \<Rightarrow> string \<Rightarrow> bool" where
  "rest_ok u t \<longleftrightarrow> (case after_matches t of [] \<Rightarrow> True | d # _ \<Rightarrow> \<not> continues_marker u d)"

fun markers_apart_from :: "string \<Rightarrow> string \<Rightarrow> bool" where
  "markers_apart_from u [] = True"
| "markers_apart_from u (c # s) =
     ((case ms standalonePattern (c # s) of [] \<Rightarrow> True | t # _ \<Rightarrow> rest_ok u t) \<and>
      markers_apart_from (u @ [c]) s)"

definition markers_apart :: "string \<Rightarrow> bool" where
  "markers_apart B = markers_apart_from [] B"

text \<open>The same condition for one beginning \<open>q\<close>, named for the proofs.\<close>

definition pending :: "string \<Rightarrow> string \<Rightarrow> bool" where
  "pending q s \<longleftrightarrow> (case after_matches s of [] \<Rightarrow> True | d # _ \<Rightarrow> \<not> begins_marker (q @ [d]))"


text \<open>
  Trailing-newline normalisation as the specification words it: a run of two or
  more newlines at the end of the body is collapsed to one; any other body is
  unchanged.
\<close>

definition normalize :: "string \<Rightarrow> string" where
  "normalize s =
     (let body = rev (dropWhile (\<lambda>c. c = CHR ''\<newline>'') (rev s))
      in if length body + 2 \<le> length s then body @ ''\<newline>'' else s)"

text \<open>
  What a pattern can match, stated without the order of attempts: \<open>mt r m t\<close> holds
  when \<open>r\<close> can match the text \<open>m\<close> with \<open>t\<close> following it.
\<close>

fun mt :: "regex \<Rightarrow> string \<Rightarrow> string \<Rightarrow> bool" where
  "mt (Str w) m t \<longleftrightarrow> m = w"
| "mt (Star k) m t \<longleftrightarrow> (\<forall>c\<in>set m. in_cls k c)"
| "mt (Plus k) m t \<longleftrightarrow> m \<noteq> [] \<and> (\<forall>c\<in>set m. in_cls k c)"
| "mt (Opt r) m t \<longleftrightarrow> m = [] \<or> mt r m t"
| "mt (Seq a b) m t \<longleftrightarrow> (\<exists>m1 m2. m = m1 @ m2 \<and> mt a m1 (m2 @ t) \<and> mt b m2 t)"
| "mt Eoi m t \<longleftrightarrow> m = [] \<and> t = []"


text \<open>No suffix of the text is matched: the pattern occurs nowhere.\<close>

definition no_match :: "regex \<Rightarrow> string \<Rightarrow> bool" where
  "no_match r s \<longleftrightarrow> (\<forall>v. suffix v s \<longrightarrow> ms r v = [])"


text \<open>Two parts of the footer pattern, named for the proofs.\<close>

definition markerTail :: regex where
  "markerTail = seqs [Str ''<!-- Note ID: '', Plus IdChar, Str '' -->'', Star Space, Eoi]"

definition updatedLine :: regex where
  "updatedLine = seqs [Str ''*Last Updated:'', Star NotNewline, Str ''\<newline>'']"


text \<open>The lines of a text (what \<open>split("\n")\<close> returns).\<close>

fun splitnl :: "string \<Rightarrow> string list" where
  "splitnl [] = [[]]"
| "splitnl (c # s) =
     (if c = CHR ''\<newline>'' then [] # splitnl s
      else (case splitnl s of [] \<Rightarrow> [[c]] | l # ls \<Rightarrow> (c # l) # ls))"


section \<open>Traces and the write-back rule\<close>

text \<open>
  A trace respects the write-back rule when every file write of a body comes after a
  store mutation (\<open>add-text\<close> or \<open>create\<close>) that carried this body and that the store
  accepted.
\<close>

definition mutation_ok :: "world \<Rightarrow> string \<Rightarrow> event \<Rightarrow> bool" where
  "mutation_ok w c e =
     (case e of
        AddText i t b m \<Rightarrow> b = Some c \<and> bear_add_text w i t b m
      | CreateNote b \<Rightarrow> b = Some c \<and> bear_create w b \<noteq> None
      | _ \<Rightarrow> False)"

fun write_back_safe :: "world \<Rightarrow> event list \<Rightarrow> event list \<Rightarrow> bool" where
  "write_back_safe w before [] = True"
| "write_back_safe w before (e # es) =
     ((case e of WriteFile p c \<Rightarrow> list_ex (mutation_ok w c) before | _ \<Rightarrow> True) \<and>
      write_back_safe w (before @ [e]) es)"

definition c4_flags :: update_flags where
  "c4_flags = \<lparr>uf_id = None, uf_title = None, uf_search_term = None,
                uf_content_file = Some ''b.md'', uf_mode = None, uf_creation_date = True,
                uf_add_id = True, uf_write_back = True, uf_no_confirm = True\<rparr>"

definition c4_body :: string where
  "c4_body = ''Body\<newline>\<newline>---\<newline>*Created: Wed, Oct 15, 2025, 05:51 PM GMT+2*\<newline>*Last Updated: Wed, Oct 15, 2025, 05:51 PM GMT+2*\<newline><!-- Note ID: AB-1 -->''"


text \<open>Inputs for the identifier conflict.\<close>

definition c8_flags :: update_flags where
  "c8_flags = \<lparr>uf_id = Some ''AAA'', uf_title = None, uf_search_term = None,
                uf_content_file = None, uf_mode = None, uf_creation_date = True,
                uf_add_id = True, uf_write_back = False, uf_no_confirm = False\<rparr>"

definition c8_content :: string where
  "c8_content = ''Text\<newline><!-- Note ID: BBB -->''"

definition c8_world_plain :: world where
  "c8_world_plain =
     sample_world\<lparr>bear_open_note := (\<lambda>i. if i = ''AAA'' then Some ''Remote body'' else None)\<rparr>"

definition c8_world_marked :: world where
  "c8_world_marked =
     sample_world\<lparr>bear_open_note :=
       (\<lambda>i. if i = ''AAA'' then Some ''Remote body\<newline><!-- Note ID: BBB -->'' else None)\<rparr>"


section \<open>The matcher: what is matched, and where\<close>

declare replace_all.simps [simp del]


lemma star_alts_set: "set (star_alts P s) = {t. \<exists>m. s = m @ t \<and> (\<forall>c\<in>set m. P c)}"
proof (induction s)
  case Nil
  then show ?case by auto
next
  case (Cons a s)
  show ?case
  proof (cases "P a")
    case True
    have "{t. \<exists>m. a # s = m @ t \<and> (\<forall>c\<in>set m. P c)} =
          insert (a # s) {t. \<exists>m. s = m @ t \<and> (\<forall>c\<in>set m. P c)}"
      using True by (auto simp: Cons_eq_append_conv)
    then show ?thesis using True Cons by simp
  next
    case False
    have "{t. \<exists>m. a # s = m @ t \<and> (\<forall>c\<in>set m. P c)} = {a # s}"
      using False by (auto simp: Cons_eq_append_conv)
    then show ?thesis using False by simp
  qed
qed

lemma plus_alts_set:
  "set (plus_alts P s) = {t. \<exists>m. s = m @ t \<and> m \<noteq> [] \<and> (\<forall>c\<in>set m. P c)}"
proof (cases s)
  case Nil
  then show ?thesis by simp
next
  case (Cons a s')
  show ?thesis
  proof (cases "P a")
    case True
    have "{t. \<exists>m. a # s' = m @ t \<and> m \<noteq> [] \<and> (\<forall>c\<in>set m. P c)} =
          {t. \<exists>m. s' = m @ t \<and> (\<forall>c\<in>set m. P c)}"
      using True by (auto simp: Cons_eq_append_conv)
    then show ?thesis using True Cons by (simp add: star_alts_set)
  next
    case False
    then show ?thesis using Cons by (auto simp: Cons_eq_append_conv)
  qed
qed

lemma ms_set: "set (ms r s) = {t. \<exists>m. s = m @ t \<and> mt r m t}"
proof (induction r arbitrary: s)
  case (Str w)
  then show ?case by (auto simp: prefix_def)
next
  case (Star k)
  then show ?case by (simp add: star_alts_set)
next
  case (Plus k)
  then show ?case by (simp add: plus_alts_set)
next
  case (Opt r)
  then show ?case by auto
next
  case (Seq a b)
  show ?case
  proof (rule set_eqI)
    fix t
    show "t \<in> set (ms (Seq a b) s) \<longleftrightarrow> t \<in> {t. \<exists>m. s = m @ t \<and> mt (Seq a b) m t}"
      by (simp add: Seq) (metis append.assoc)
  qed
next
  case Eoi
  then show ?case by auto
qed


lemma no_match_Nil: "no_match r [] \<longleftrightarrow> ms r [] = []"
  by (simp add: no_match_def)

lemma no_match_Cons: "no_match r (c # s) \<longleftrightarrow> ms r (c # s) = [] \<and> no_match r s"
  by (auto simp: no_match_def suffix_Cons)

lemma replace_first_no_match: "no_match r s \<Longrightarrow> replace_first r rep s = s"
  by (induction s) (simp_all add: no_match_Nil no_match_Cons)

lemma replace_all_no_match: "no_match r s \<Longrightarrow> replace_all r rep s = s"
proof (induction s)
  case Nil
  then show ?case by (simp add: no_match_Nil replace_all.simps)
next
  case (Cons c s)
  then show ?case by (simp add: no_match_Cons replace_all.simps[of r rep "c # s"])
qed

lemma find_match_None: "find_match r s = None \<longleftrightarrow> no_match r s"
  by (induction s) (auto simp: no_match_Nil no_match_Cons split: list.splits)

lemma replace_first_skip:
  "(\<And>D. D \<noteq> [] \<Longrightarrow> suffix D B \<Longrightarrow> ms r (D @ T) = []) \<Longrightarrow>
   replace_first r rep (B @ T) = B @ replace_first r rep T"
proof (induction B)
  case Nil
  then show ?case by simp
next
  case (Cons c B)
  have "ms r ((c # B) @ T) = []" by (rule Cons.prems) simp_all
  moreover have "replace_first r rep (B @ T) = B @ replace_first r rep T"
    by (rule Cons.IH) (simp add: Cons.prems suffix_Cons)
  ultimately show ?case by simp
qed

lemma replace_all_skip:
  "(\<And>D. D \<noteq> [] \<Longrightarrow> suffix D B \<Longrightarrow> ms r (D @ T) = []) \<Longrightarrow>
   replace_all r rep (B @ T) = B @ replace_all r rep T"
proof (induction B)
  case Nil
  then show ?case by simp
next
  case (Cons c B)
  have "ms r ((c # B) @ T) = []" by (rule Cons.prems) simp_all
  moreover have "replace_all r rep (B @ T) = B @ replace_all r rep T"
    by (rule Cons.IH) (simp add: Cons.prems suffix_Cons)
  ultimately show ?case by (simp add: replace_all.simps[of r rep "c # B @ T"])
qed

lemma ms_suffix: "t \<in> set (ms r s) \<Longrightarrow> suffix t s"
  by (auto simp: ms_set suffix_def)

lemma replace_all_chars: "set (replace_all r rep s) \<subseteq> set s \<union> set rep"
proof (induction r rep s rule: replace_all.induct)
  case (1 r rep s)
  note unfold = replace_all.simps[of r rep s]
  show ?case
  proof (cases "ms r s")
    case Nil
    show ?thesis
    proof (cases s)
      case Nil
      then show ?thesis using \<open>ms r s = []\<close> unfold by simp
    next
      case (Cons c s')
      then show ?thesis using \<open>ms r s = []\<close> unfold 1(1)[OF \<open>ms r s = []\<close> Cons] by auto
    qed
  next
    case (Cons t ts)
    then have "t \<in> set (ms r s)" by simp
    then have "suffix t s" by (rule ms_suffix)
    then have sub: "set t \<subseteq> set s" by (auto simp: suffix_def)
    show ?thesis
    proof (cases "length t < length s")
      case True
      then show ?thesis using 1(2)[OF Cons True] Cons sub unfold by auto
    next
      case False
      show ?thesis
      proof (cases s)
        case Nil
        then show ?thesis using Cons False unfold by simp
      next
        case (Cons c s')
        then show ?thesis using \<open>ms r s = t # ts\<close> False unfold
            1(3)[OF \<open>ms r s = t # ts\<close> False Cons] by auto
      qed
    qed
  qed
qed



lemma ms_empty_iff: "ms r s = [] \<longleftrightarrow> (\<forall>m t. s = m @ t \<longrightarrow> \<not> mt r m t)"
proof -
  have "ms r s = [] \<longleftrightarrow> set (ms r s) = {}" by simp
  also have "\<dots> \<longleftrightarrow> (\<forall>m t. s = m @ t \<longrightarrow> \<not> mt r m t)" by (auto simp: ms_set)
  finally show ?thesis .
qed

lemma marker_mtD:
  "mt noteIdPattern m t \<Longrightarrow> (\<exists>i. id_ok i \<and> m = ''<!-- Note ID: '' @ i @ '' -->'')"
  by (clarsimp simp: noteIdPattern_def id_ok_def list_all_iff)

lemma marker_mtI:
  "id_ok i \<Longrightarrow> mt noteIdPattern (''<!-- Note ID: '' @ i @ '' -->'') t"
  by (simp add: noteIdPattern_def id_ok_def list_all_iff)

lemma standalone_mtD:
  "mt standalonePattern m t \<Longrightarrow>
   \<exists>n i ws. id_ok i \<and> (\<forall>c\<in>set n. c = CHR ''\<newline>'') \<and> (\<forall>c\<in>set ws. is_space c) \<and>
      m = n @ ''<!-- Note ID: '' @ i @ '' -->'' @ ws"
  by (clarsimp simp: standalonePattern_def id_ok_def list_all_iff) blast

lemma separator_mtD:
  "mt separatorPattern m t \<Longrightarrow>
   t = [] \<and> (\<exists>ws. (\<forall>c\<in>set ws. is_space c) \<and> m = ''\<newline>\<newline>---'' @ ws)"
  by (clarsimp simp: separatorPattern_def)

lemma newlines_mtD:
  "mt newlinesPattern m t \<Longrightarrow>
   t = [] \<and> (\<exists>n. n \<noteq> [] \<and> (\<forall>c\<in>set n. c = CHR ''\<newline>'') \<and> m = ''\<newline>'' @ n)"
  by (clarsimp simp: newlinesPattern_def)


lemma mt_Seq_StrE:
  assumes "mt (Seq (Str w) b) m t"
  obtains m2 where "m = w @ m2" "mt b m2 t"
  using assms by auto

lemma mt_Seq_StarE:
  assumes "mt (Seq (Star k) b) m t"
  obtains m1 m2 where "m = m1 @ m2" "\<forall>c\<in>set m1. in_cls k c" "mt b m2 t"
  using assms by auto

lemma mt_Seq_OptE:
  assumes "mt (Seq (Opt r) b) m t"
  obtains "mt b m t" | m1 m2 where "m = m1 @ m2" "mt r m1 (m2 @ t)" "mt b m2 t"
  using assms by auto

lemma footerPattern_alt:
  "footerPattern =
     Seq (Str ''\<newline>\<newline>---\<newline>*Created:'')
       (Seq (Star NotNewline) (Seq (Str ''\<newline>'') (Seq (Opt updatedLine) markerTail)))"
  by (simp add: footerPattern_def markerTail_def updatedLine_def)

lemma mt_Seq_PlusE:
  assumes "mt (Seq (Plus k) b) m t"
  obtains m1 m2 where "m = m1 @ m2" "m1 \<noteq> []" "\<forall>c\<in>set m1. in_cls k c" "mt b m2 t"
  using assms by auto

lemma mt_SeqI: "m = m1 @ m2 \<Longrightarrow> mt a m1 (m2 @ t) \<Longrightarrow> mt b m2 t \<Longrightarrow> mt (Seq a b) m t"
  by auto

lemma markerTail_alt:
  "markerTail =
     Seq (Str ''<!-- Note ID: '') (Seq (Plus IdChar) (Seq (Str '' -->'') (Seq (Star Space) Eoi)))"
  by (simp add: markerTail_def)

lemma markerTail_mtD:
  assumes "mt markerTail m t"
  shows "t = [] \<and> (\<exists>i ws. m = ''<!-- Note ID: '' @ i @ '' -->'' @ ws \<and> id_ok i \<and>
            (\<forall>c\<in>set ws. is_space c))"
proof -
  from assms[unfolded markerTail_alt] obtain r1 where
    m: "m = ''<!-- Note ID: '' @ r1" and
    r1: "mt (Seq (Plus IdChar) (Seq (Str '' -->'') (Seq (Star Space) Eoi))) r1 t"
    by (rule mt_Seq_StrE)
  from r1 obtain i r2 where
    r1_eq: "r1 = i @ r2" and i: "i \<noteq> []" "\<forall>c\<in>set i. in_cls IdChar c" and
    r2: "mt (Seq (Str '' -->'') (Seq (Star Space) Eoi)) r2 t"
    by (rule mt_Seq_PlusE)
  from r2 obtain r3 where
    r2_eq: "r2 = '' -->'' @ r3" and r3: "mt (Seq (Star Space) Eoi) r3 t"
    by (rule mt_Seq_StrE)
  from r3 obtain ws e where
    r3_eq: "r3 = ws @ e" and ws: "\<forall>c\<in>set ws. in_cls Space c" and e: "mt Eoi e t"
    by (rule mt_Seq_StarE)
  from e have "e = []" "t = []" by simp_all
  moreover have "id_ok i" using i by (simp add: id_ok_def list_all_iff)
  moreover have "\<forall>c\<in>set ws. is_space c" using ws by simp
  moreover have "m = ''<!-- Note ID: '' @ i @ '' -->'' @ ws"
    using m r1_eq r2_eq r3_eq \<open>e = []\<close> by simp
  ultimately show ?thesis by blast
qed

lemma markerTail_mtI:
  assumes "id_ok i" "\<forall>c\<in>set ws. is_space c"
  shows "mt markerTail (''<!-- Note ID: '' @ i @ '' -->'' @ ws) []"
  unfolding markerTail_alt
proof (rule mt_SeqI[where ?m1.0 = "''<!-- Note ID: ''" and ?m2.0 = "i @ '' -->'' @ ws"])
  show "mt (Seq (Plus IdChar) (Seq (Str '' -->'') (Seq (Star Space) Eoi))) (i @ '' -->'' @ ws) []"
  proof (rule mt_SeqI[where ?m1.0 = i and ?m2.0 = "'' -->'' @ ws"])
    show "mt (Plus IdChar) i (('' -->'' @ ws) @ [])" using assms(1) by (simp add: id_ok_def list_all_iff)
    show "mt (Seq (Str '' -->'') (Seq (Star Space) Eoi)) ('' -->'' @ ws) []"
    proof (rule mt_SeqI[where ?m1.0 = "'' -->''" and ?m2.0 = ws])
      show "mt (Seq (Star Space) Eoi) ws []"
        by (rule mt_SeqI[where ?m1.0 = ws and ?m2.0 = "[]"]) (use assms(2) in simp_all)
    qed simp_all
  qed simp
qed simp_all

lemma updatedLine_alt:
  "updatedLine = Seq (Str ''*Last Updated:'') (Seq (Star NotNewline) (Str ''\<newline>''))"
  by (simp add: updatedLine_def)

lemma updatedLine_mtD:
  assumes "mt updatedLine m t"
  shows "\<exists>l2. m = ''*Last Updated:'' @ l2 @ ''\<newline>'' \<and> CHR ''\<newline>'' \<notin> set l2"
proof -
  from assms[unfolded updatedLine_alt] obtain r1 where
    m: "m = ''*Last Updated:'' @ r1" and r1: "mt (Seq (Star NotNewline) (Str ''\<newline>'')) r1 t"
    by (rule mt_Seq_StrE)
  from r1 obtain l2 r2 where
    r1_eq: "r1 = l2 @ r2" and l2: "\<forall>c\<in>set l2. in_cls NotNewline c" and r2: "mt (Str ''\<newline>'') r2 t"
    by (rule mt_Seq_StarE)
  have "CHR ''\<newline>'' \<notin> set l2" using l2 by auto
  moreover have "m = ''*Last Updated:'' @ l2 @ ''\<newline>''" using m r1_eq r2 by simp
  ultimately show ?thesis by blast
qed

lemma updatedLine_mtI:
  assumes "CHR ''\<newline>'' \<notin> set l2"
  shows "mt updatedLine (''*Last Updated:'' @ l2 @ ''\<newline>'') t"
  unfolding updatedLine_alt
proof (rule mt_SeqI[where ?m1.0 = "''*Last Updated:''" and ?m2.0 = "l2 @ ''\<newline>''"])
  show "mt (Seq (Star NotNewline) (Str ''\<newline>'')) (l2 @ ''\<newline>'') t"
    by (rule mt_SeqI[where ?m1.0 = l2 and ?m2.0 = "''\<newline>''"]) (use assms in auto)
qed simp_all

lemma footer_mtD:
  assumes "mt footerPattern m t"
  shows "t = [] \<and> (\<exists>l1 g i ws.
      m = ''\<newline>\<newline>---\<newline>*Created:'' @ l1 @ ''\<newline>'' @ g @ ''<!-- Note ID: '' @ i @ '' -->'' @ ws \<and>
      id_ok i \<and> CHR ''\<newline>'' \<notin> set l1 \<and> (\<forall>c\<in>set ws. is_space c) \<and>
      (g = [] \<or> (\<exists>l2. g = ''*Last Updated:'' @ l2 @ ''\<newline>'' \<and> CHR ''\<newline>'' \<notin> set l2)))"
proof -
  from assms[unfolded footerPattern_alt] obtain r1 where
    m: "m = ''\<newline>\<newline>---\<newline>*Created:'' @ r1" and
    r1: "mt (Seq (Star NotNewline) (Seq (Str ''\<newline>'') (Seq (Opt updatedLine) markerTail))) r1 t"
    by (rule mt_Seq_StrE)
  from r1 obtain l1 r2 where
    r1_eq: "r1 = l1 @ r2" and l1: "\<forall>c\<in>set l1. in_cls NotNewline c" and
    r2: "mt (Seq (Str ''\<newline>'') (Seq (Opt updatedLine) markerTail)) r2 t"
    by (rule mt_Seq_StarE)
  from r2 obtain r3 where
    r2_eq: "r2 = ''\<newline>'' @ r3" and r3: "mt (Seq (Opt updatedLine) markerTail) r3 t"
    by (rule mt_Seq_StrE)
  have nl1: "CHR ''\<newline>'' \<notin> set l1" using l1 by auto
  from r3 show ?thesis
  proof (cases rule: mt_Seq_OptE)
    case 1
    from markerTail_mtD[OF 1] obtain i ws where
      "t = []" "r3 = ''<!-- Note ID: '' @ i @ '' -->'' @ ws" "id_ok i" "\<forall>c\<in>set ws. is_space c"
      by blast
    then show ?thesis using m r1_eq r2_eq nl1
      by (intro conjI exI[of _ l1] exI[of _ "[]"] exI[of _ i] exI[of _ ws]) simp_all
  next
    case (2 g r4)
    from markerTail_mtD[OF 2(3)] obtain i ws where
      t: "t = []" and r4: "r4 = ''<!-- Note ID: '' @ i @ '' -->'' @ ws" and
      i: "id_ok i" and ws: "\<forall>c\<in>set ws. is_space c"
      by blast
    from updatedLine_mtD[OF 2(2)] obtain l2 where
      g: "g = ''*Last Updated:'' @ l2 @ ''\<newline>''" and nl2: "CHR ''\<newline>'' \<notin> set l2"
      by blast
    have "m = ''\<newline>\<newline>---\<newline>*Created:'' @ l1 @ ''\<newline>'' @ g @ ''<!-- Note ID: '' @ i @ '' -->'' @ ws"
      using m r1_eq r2_eq 2(1) r4 by simp
    then show ?thesis using t i ws nl1 nl2 g
      by (intro conjI exI[of _ l1] exI[of _ g] exI[of _ i] exI[of _ ws]) blast+
  qed
qed

lemma footer_mtI:
  assumes "id_ok i" "CHR ''\<newline>'' \<notin> set l1" "\<forall>c\<in>set ws. is_space c"
    "g = [] \<or> (\<exists>l2. g = ''*Last Updated:'' @ l2 @ ''\<newline>'' \<and> CHR ''\<newline>'' \<notin> set l2)"
  shows "mt footerPattern
    (''\<newline>\<newline>---\<newline>*Created:'' @ l1 @ ''\<newline>'' @ g @ ''<!-- Note ID: '' @ i @ '' -->'' @ ws) []"
proof -
  let ?tail = "''<!-- Note ID: '' @ i @ '' -->'' @ ws"
  have tail: "mt markerTail ?tail []" using assms(1,3) by (rule markerTail_mtI)
  have g: "mt (Opt updatedLine) g (?tail @ [])"
    using assms(4) updatedLine_mtI by auto
  have opt: "mt (Seq (Opt updatedLine) markerTail) (g @ ?tail) []"
    by (rule mt_SeqI[where ?m1.0 = g and ?m2.0 = ?tail, OF refl g tail])
  have nl: "mt (Seq (Str ''\<newline>'') (Seq (Opt updatedLine) markerTail)) (''\<newline>'' @ g @ ?tail) []"
    by (rule mt_SeqI[where ?m1.0 = "''\<newline>''" and ?m2.0 = "g @ ?tail", OF refl _ opt]) simp
  have "mt (Star NotNewline) l1 ((''\<newline>'' @ g @ ?tail) @ [])" using assms(2) by auto
  then have l1: "mt (Seq (Star NotNewline) (Seq (Str ''\<newline>'') (Seq (Opt updatedLine) markerTail)))
              (l1 @ ''\<newline>'' @ g @ ?tail) []"
    by (rule mt_SeqI[where ?m1.0 = l1 and ?m2.0 = "''\<newline>'' @ g @ ?tail", OF refl _ nl])
  show ?thesis unfolding footerPattern_alt
    by (rule mt_SeqI[where ?m1.0 = "''\<newline>\<newline>---\<newline>*Created:''"
          and ?m2.0 = "l1 @ ''\<newline>'' @ g @ ?tail", OF refl _ l1]) simp
qed



lemma split_last:
  "c \<notin> set y \<Longrightarrow> c \<notin> set y' \<Longrightarrow> x @ c # y = x' @ c # y' \<longleftrightarrow> x = x' \<and> y = y'"
  by (auto simp: append_eq_append_conv2 Cons_eq_append_conv append_eq_Cons_conv)

lemma splitnl_nonempty: "splitnl s \<noteq> []"
  by (induction s) (auto split: list.splits)

lemma splitnl_append_nl: "splitnl (x @ CHR ''\<newline>'' # y) = splitnl x @ splitnl y"
  by (induction x) (auto split: list.splits simp: splitnl_nonempty)

lemma splitnl_no_nl: "CHR ''\<newline>'' \<notin> set y \<Longrightarrow> splitnl y = [y]"
  by (induction y) auto

lemma splitnl_single: "splitnl D = [[]] \<longleftrightarrow> D = []"
proof (cases D)
  case Nil
  then show ?thesis by simp
next
  case (Cons c D')
  then show ?thesis using splitnl_nonempty[of D'] by (cases "splitnl D'") auto
qed








lemma not_space_gt: "\<not> is_space (CHR ''>'')"
  by (simp add: is_space_def)

lemma not_id_char_nl: "\<not> is_id_char (CHR ''\<newline>'')"
  by (simp add: is_id_char_def)

lemma id_ok_no_nl: "id_ok i \<Longrightarrow> CHR ''\<newline>'' \<notin> set i"
  using not_id_char_nl unfolding id_ok_def list_all_iff by blast

lemma strip_trailing_space:
  assumes "x @ CHR ''>'' # ws = y @ CHR ''>'' # ws'"
    and "\<forall>c\<in>set ws. is_space c" "\<forall>c\<in>set ws'. is_space c"
  shows "x = y \<and> ws = ws'"
proof -
  have "CHR ''>'' \<notin> set ws" "CHR ''>'' \<notin> set ws'"
    using assms(2,3) not_space_gt by blast+
  from split_last[OF this] assms(1) show ?thesis by blast
qed

lemma footer_no_early:
  assumes D: "D \<noteq> []" and x1: "CHR ''\<newline>'' \<notin> set x1"
    and g': "g' = [] \<or> (\<exists>x2. g' = ''*Last Updated:'' @ x2 @ ''\<newline>'' \<and> CHR ''\<newline>'' \<notin> set x2)"
    and I: "id_ok I" and ws: "\<forall>c\<in>set ws. is_space c"
  shows "ms footerPattern
           (D @ ''\<newline>\<newline>---\<newline>*Created:'' @ x1 @ ''\<newline>'' @ g' @ ''<!-- Note ID: '' @ I @ '' -->'' @ ws) = []"
proof (rule ccontr)
  let ?s = "D @ ''\<newline>\<newline>---\<newline>*Created:'' @ x1 @ ''\<newline>'' @ g' @ ''<!-- Note ID: '' @ I @ '' -->'' @ ws"
  assume "ms footerPattern ?s \<noteq> []"
  then obtain m t where eq: "?s = m @ t" and mt: "mt footerPattern m t"
    by (auto simp: ms_empty_iff)
  from footer_mtD[OF mt] obtain l1 g i ws' where t: "t = []" and
    m: "m = ''\<newline>\<newline>---\<newline>*Created:'' @ l1 @ ''\<newline>'' @ g @ ''<!-- Note ID: '' @ i @ '' -->'' @ ws'" and
    i: "id_ok i" and l1: "CHR ''\<newline>'' \<notin> set l1" and ws': "\<forall>c\<in>set ws'. is_space c" and
    g: "g = [] \<or> (\<exists>l2. g = ''*Last Updated:'' @ l2 @ ''\<newline>'' \<and> CHR ''\<newline>'' \<notin> set l2)"
    by blast
  have "(D @ ''\<newline>\<newline>---\<newline>*Created:'' @ x1 @ ''\<newline>'' @ g' @ ''<!-- Note ID: '' @ I @ '' --'') @ CHR ''>'' # ws =
        (''\<newline>\<newline>---\<newline>*Created:'' @ l1 @ ''\<newline>'' @ g @ ''<!-- Note ID: '' @ i @ '' --'') @ CHR ''>'' # ws'"
    using eq t m by simp
  from strip_trailing_space[OF this ws ws'] have body:
    "D @ ''\<newline>\<newline>---\<newline>*Created:'' @ x1 @ ''\<newline>'' @ g' @ ''<!-- Note ID: '' @ I @ '' --'' =
     ''\<newline>\<newline>---\<newline>*Created:'' @ l1 @ ''\<newline>'' @ g @ ''<!-- Note ID: '' @ i @ '' --''"
    by blast
  have nlI: "CHR ''\<newline>'' \<notin> set I" "CHR ''\<newline>'' \<notin> set i" using I i by (simp_all add: id_ok_no_nl)
  note lines = arg_cong[OF body, of "\<lambda>s. rev (splitnl s)"]
  have "splitnl D = [[]]"
  proof (cases "g' = []")
    case True
    note g'0 = this
    show ?thesis
    proof (cases "g = []")
      case True
      with lines g'0 x1 l1 nlI show ?thesis
        by (simp add: splitnl_append_nl splitnl_no_nl)
    next
      case False
      with g obtain l2 where "g = ''*Last Updated:'' @ l2 @ ''\<newline>''" "CHR ''\<newline>'' \<notin> set l2"
        by blast
      with lines g'0 x1 l1 nlI show ?thesis
        by (simp add: splitnl_append_nl splitnl_no_nl)
    qed
  next
    case False
    with g' obtain x2 where g'1: "g' = ''*Last Updated:'' @ x2 @ ''\<newline>''" "CHR ''\<newline>'' \<notin> set x2"
      by blast
    show ?thesis
    proof (cases "g = []")
      case True
      with lines g'1 x1 l1 nlI show ?thesis
        by (simp add: splitnl_append_nl splitnl_no_nl)
    next
      case False
      with g obtain l2 where "g = ''*Last Updated:'' @ l2 @ ''\<newline>''" "CHR ''\<newline>'' \<notin> set l2"
        by blast
      with lines g'1 x1 l1 nlI show ?thesis
        by (simp add: splitnl_append_nl splitnl_no_nl)
    qed
  qed
  then show False using D by (simp add: splitnl_single)
qed

section \<open>Detection\<close>

lemma id_ok_iff: "id_ok i \<longleftrightarrow> i \<noteq> [] \<and> (\<forall>c\<in>set i. is_id_char c)"
  by (simp add: id_ok_def list_all_iff)

lemma find_match_SomeD:
  "find_match r s = Some m \<Longrightarrow> \<exists>pre t. s = pre @ m @ t \<and> mt r m t"
proof (induction s)
  case Nil
  then obtain t ts where ms: "ms r [] = t # ts" and m: "m = []"
    by (auto split: list.splits)
  then have "t \<in> set (ms r [])" by simp
  then have "mt r [] []" by (auto simp: ms_set)
  then show ?case using m by simp
next
  case (Cons c s)
  show ?case
  proof (cases "ms r (c # s)")
    case Nil
    with Cons.prems have "find_match r s = Some m" by simp
    from Cons.IH[OF this] obtain pre t where "s = pre @ m @ t" "mt r m t" by blast
    then have "c # s = (c # pre) @ m @ t" by simp
    with \<open>mt r m t\<close> show ?thesis by blast
  next
    case (Cons t ts)
    then have "t \<in> set (ms r (c # s))" by simp
    then obtain m' where eq: "c # s = m' @ t" and mt: "mt r m' t" by (auto simp: ms_set)
    from Cons.prems Cons have "m = take (length (c # s) - length t) (c # s)" by simp
    also have "\<dots> = m'" unfolding eq by simp
    finally have mm: "m = m'" .
    then have "c # s = [] @ m @ t" using eq by simp
    with mt mm show ?thesis by blast
  qed
qed

lemma detect_SomeD:
  assumes "detectNoteId s = Some x"
  shows "id_ok x \<and> (\<exists>pre t. s = pre @ ''<!-- Note ID: '' @ x @ '' -->'' @ t)"
proof -
  from assms obtain m where fm: "find_match noteIdPattern s = Some m" and
    x: "x = take (length m - length ''<!-- Note ID: '' - length '' -->'') (drop (length ''<!-- Note ID: '') m)"
    by (auto simp: detectNoteId_def split: option.splits)
  from find_match_SomeD[OF fm] obtain pre t where s: "s = pre @ m @ t" and mt: "mt noteIdPattern m t"
    by blast
  from marker_mtD[OF mt] obtain i where i: "id_ok i" and m: "m = ''<!-- Note ID: '' @ i @ '' -->''"
    by blast
  have "x = i" unfolding x m by simp
  then show ?thesis using i s m by auto
qed

lemma detect_nonempty: "detectNoteId c = Some x \<Longrightarrow> x \<noteq> []"
  using detect_SomeD[of c x] by (simp add: id_ok_def)

lemma detect_None_iff: "detectNoteId s = None \<longleftrightarrow> no_match noteIdPattern s"
  by (simp add: detectNoteId_def find_match_None[symmetric] split: option.splits)


section \<open>GMT offset\<close>

lemma toString_two_digits:
  assumes "m < 60" "m \<noteq> 0"
  shows "padStart 2 (CHR ''0'') (toString m) = [digit_char (m div 10), digit_char (m mod 10)]"
proof -
  have small: "m div 10 < 10" using assms by arith
  show ?thesis
  proof (cases "m < 10")
    case True
    then show ?thesis
      by (simp add: padStart_def toString.simps[of m] digit_char_def)
  next
    case False
    with small show ?thesis
      by (simp add: padStart_def toString.simps[of m] toString.simps[of "m div 10"])
  qed
qed


text \<open>
  C9. For every local UTC offset in whole minutes, the suffix is \<open>GMT\<close>, the sign of
  the offset, the whole hours, and the minutes as \<open>:MM\<close> with two digits only when
  they are not zero.
\<close>

theorem gmt_offset_format:
  "buildGMTOffset d =
     (let off = - timezoneOffset d; h = nat \<bar>off\<bar> div 60; m = nat \<bar>off\<bar> mod 60
      in ''GMT'' @ [if 0 \<le> off then CHR ''+'' else CHR ''-''] @ toString h @
         (if m = 0 then [] else [CHR '':'', digit_char (m div 10), digit_char (m mod 10)]))"
  by (simp add: buildGMTOffset_def Let_def toString_two_digits)


theorem gmt_offset_format_witness:
  "buildGMTOffset (sample_date\<lparr>timezoneOffset := - 345\<rparr>) = ''GMT+5:45'' \<and>
   buildGMTOffset (sample_date\<lparr>timezoneOffset := 210\<rparr>) = ''GMT-3:30'' \<and>
   buildGMTOffset sample_date = ''GMT+2''"
  using gmt_offset_format[of "sample_date\<lparr>timezoneOffset := - 345\<rparr>"]
    gmt_offset_format[of "sample_date\<lparr>timezoneOffset := 210\<rparr>"]
    gmt_offset_format[of sample_date]
  by (simp add: sample_date_def Let_def toString.simps digit_char_def)


section \<open>Footer builders\<close>

text \<open>
  C6, as the code has it. The two flags gate the timestamp lines and the marker
  independently, after a separator that is always there: with both flags off a
  builder returns the bare separator, not the empty text. The callers guard the
  call: with both flags off they append nothing.
\<close>

theorem footer_flags_gate:
  "Create_buildNewNoteFooter now noteId c d =
     ''\<newline>\<newline>---'' @ (if c then ''\<newline>*Created: '' @ formatDate now @ ''*'' else []) @
     (if d then ''\<newline><!-- Note ID: '' @ noteId @ '' -->'' else []) \<and>
   BatchUpdate_buildNewNoteFooter now noteId c d =
     ''\<newline>\<newline>---'' @ (if c then ''\<newline>*Created: '' @ formatDate now @ ''*'' else []) @
     (if d then ''\<newline><!-- Note ID: '' @ noteId @ '' -->'' else []) \<and>
   BatchUpdate_buildUpdateFooter now noteId c d =
     ''\<newline>\<newline>---'' @
     (if c then ''\<newline>*Created: '' @ formatDate now @ ''*'' @
                ''\<newline>*Last Updated: '' @ formatDate now @ ''*'' else []) @
     (if d then ''\<newline><!-- Note ID: '' @ noteId @ '' -->'' else []) \<and>
   BatchUpdate_updateNote_enhanced now (flags\<lparr>creation_date := False, add_id := False\<rparr>)
     noteId content = content \<and>
   BatchUpdate_createNote_enhanced now (flags\<lparr>creation_date := False, add_id := False\<rparr>)
     noteId content = BatchUpdate_stripExistingFooter content \<and>
   Create_updateExistingNote_enhanced now (cflags\<lparr>cf_creation_date := False, cf_add_id := False\<rparr>)
     noteId content = content"
  by (simp add: Create_buildNewNoteFooter_def BatchUpdate_buildNewNoteFooter_def
      BatchUpdate_buildUpdateFooter_def BatchUpdate_updateNote_enhanced_def
      BatchUpdate_createNote_enhanced_def Create_updateExistingNote_enhanced_def Let_def)

theorem footer_flags_gate_witness:
  "BatchUpdate_buildUpdateFooter sample_date ''ABC-123'' False True =
     ''\<newline>\<newline>---\<newline><!-- Note ID: ABC-123 -->'' \<and>
   BatchUpdate_buildUpdateFooter sample_date ''ABC-123'' True False =
     ''\<newline>\<newline>---\<newline>*Created: Wed, Oct 15, 2025, 05:51 PM GMT+2*\<newline>*Last Updated: Wed, Oct 15, 2025, 05:51 PM GMT+2*'' \<and>
   Create_buildNewNoteFooter sample_date ''ABC-123'' False False = ''\<newline>\<newline>---''"
  using footer_flags_gate[of sample_date "''ABC-123''" False True]
    footer_flags_gate[of sample_date "''ABC-123''" True False]
    footer_flags_gate[of sample_date "''ABC-123''" False False]
  by (simp add: formatDate_def sample_date_def buildGMTOffset_def Let_def toString.simps
      digit_char_def)

theorem empty_footer_counterexample:
  "Create_buildNewNoteFooter sample_date ''ABC-123'' False False \<noteq> [] \<and>
   BatchUpdate_buildNewNoteFooter sample_date ''ABC-123'' False False \<noteq> [] \<and>
   BatchUpdate_buildUpdateFooter sample_date ''ABC-123'' False False \<noteq> []"
  by (simp add: Create_buildNewNoteFooter_def BatchUpdate_buildNewNoteFooter_def
      BatchUpdate_buildUpdateFooter_def Let_def)

section \<open>Batch reconciliation\<close>

lemma processFile_no_marker:
  "fs_read w f = Some c \<Longrightarrow> detectNoteId c = None \<Longrightarrow>
   BatchUpdate_processFile w flags f st = ((fst st)\<lparr>skipped := skipped (fst st) + 1\<rparr>, snd st)"
  by (simp add: BatchUpdate_processFile_def truthy_def Let_def)

lemma processFile_update:
  assumes "fs_read w f = Some c" "detectNoteId c = Some x" "bear_open_note w x \<noteq> None"
    "\<not> dry_run flags" "\<And>i t b m. bear_add_text w i t b m"
  shows "BatchUpdate_processFile w flags f (n, tr) =
         (if write_back flags \<longrightarrow> fs_write w f (BatchUpdate_updateNote_enhanced (clock w) flags x c)
          then n\<lparr>updated := updated n + 1, processed := processed n + 1\<rparr>
          else n\<lparr>errors := errors n + 1\<rparr>,
          tr @ OpenNote x # fst (BatchUpdate_updateNote w flags f x c))"
  using assms detect_nonempty[OF assms(2)]
  by (simp add: BatchUpdate_processFile_def truthy_def Let_def BatchUpdate_noteExists_def
      BatchUpdate_updateNote_def)

lemma processFile_create:
  assumes "fs_read w f = Some c" "detectNoteId c = Some x" "bear_open_note w x = None"
    "\<not> dry_run flags" "\<And>b. bear_create w b \<noteq> None"
  shows "BatchUpdate_processFile w flags f (n, tr) =
         (if write_back flags \<longrightarrow> fs_write w f (BatchUpdate_createNote_enhanced (clock w) flags x c)
          then n\<lparr>created := created n + 1, processed := processed n + 1\<rparr>
          else n\<lparr>errors := errors n + 1\<rparr>,
          tr @ OpenNote x # fst (BatchUpdate_createNote w flags f x c))"
proof -
  obtain y where "bear_create w (Some (BatchUpdate_createNote_enhanced (clock w) flags x c)) = Some y"
    using assms(5) by blast
  then show ?thesis
    using assms(1-4) detect_nonempty[OF assms(2)]
    by (simp add: BatchUpdate_processFile_def truthy_def Let_def BatchUpdate_noteExists_def
        BatchUpdate_createNote_def)
qed


text \<open>
  C7 as stated fails when write-back is requested and a file cannot be written:
  \<open>updateNote\<close> and \<open>createNote\<close> call \<open>writeFileSync\<close> outside any \<open>try\<close>, so the
  failure reaches the \<open>catch\<close> of the loop before the counter is incremented. Here
  every store call succeeds (the note \<open>AB-1\<close> is updated, the note \<open>CD-2\<close> is created),
  there is no dry-run, and the counters end at skipped 1, updated 0, created 0,
  errors 2.
\<close>

theorem batch_write_failure_counterexample:
  "\<not> dry_run c7_flags \<and>
   BatchUpdate_run readonly_world c7_flags [''a.md'', ''b.md'', ''c.md''] =
     (\<lparr>processed = 0, updated = 0, created = 0, skipped = 1, errors = 2\<rparr>,
      [OpenNote ''AB-1'',
       AddText (Some ''AB-1'') None (Some c4_body) ''replace_all'',
       WriteFile ''b.md'' c4_body,
       OpenNote ''CD-2'',
       CreateNote (Some c7_created),
       WriteFile ''c.md'' c7_created]) \<and>
   bear_open_note readonly_world ''AB-1'' \<noteq> None \<and>
   bear_open_note readonly_world ''CD-2'' = None \<and>
   bear_add_text readonly_world (Some ''AB-1'') None (Some c4_body) ''replace_all'' \<and>
   bear_create readonly_world (Some c7_created) \<noteq> None"
  by code_simp


text \<open>
  C7, as the code has it. A batch of three files, in any order: one without a
  detectable marker, one whose identifier exists in the store, one whose
  identifier does not. Without dry-run and with every store call succeeding, the
  counters end at skipped 1, updated 1, created 1, errors 0 (processed 2) exactly
  when write-back is off or the two write-backs (of the updated and of the created
  file) succeed. And in any world, with any flags, a readable file without a
  detectable marker only increments \<open>skipped\<close>: no store call, no write, no creation.
\<close>

theorem batch_three_files:
  assumes order: "files \<in> {[f1, f2, f3], [f1, f3, f2], [f2, f1, f3], [f2, f3, f1], [f3, f1, f2], [f3, f2, f1]}"
    and f1: "fs_read w f1 = Some c1" "detectNoteId c1 = None"
    and f2: "fs_read w f2 = Some c2" "detectNoteId c2 = Some x1" "bear_open_note w x1 \<noteq> None"
    and f3: "fs_read w f3 = Some c3" "detectNoteId c3 = Some x2" "bear_open_note w x2 = None"
    and nodry: "\<not> dry_run flags"
    and ok: "\<And>i t b m. bear_add_text w i t b m" "\<And>b. bear_create w b \<noteq> None"
  shows "(fst (BatchUpdate_run w flags files) =
            \<lparr>processed = 2, updated = 1, created = 1, skipped = 1, errors = 0\<rparr>) =
         (write_back flags \<longrightarrow>
            fs_write w f2 (BatchUpdate_updateNote_enhanced (clock w) flags x1 c2) \<and>
            fs_write w f3 (BatchUpdate_createNote_enhanced (clock w) flags x2 c3)) \<and>
         (\<forall>w' flags' f c st. fs_read w' f = Some c \<longrightarrow> detectNoteId c = None \<longrightarrow>
            BatchUpdate_processFile w' flags' f st =
              ((fst st)\<lparr>skipped := skipped (fst st) + 1\<rparr>, snd st))"
proof -
  note u = processFile_update[OF f2 nodry ok(1)]
  note c = processFile_create[OF f3 nodry ok(2)]
  note s = processFile_no_marker[OF f1]
  have "(fst (BatchUpdate_run w flags files) =
            \<lparr>processed = 2, updated = 1, created = 1, skipped = 1, errors = 0\<rparr>) =
         (write_back flags \<longrightarrow>
            fs_write w f2 (BatchUpdate_updateNote_enhanced (clock w) flags x1 c2) \<and>
            fs_write w f3 (BatchUpdate_createNote_enhanced (clock w) flags x2 c3))"
    using order by (auto simp: BatchUpdate_run_def Let_def u c s split: if_splits)
  then show ?thesis by (simp add: processFile_no_marker)
qed

lemma d1: "detectNoteId ''Plain text'' = None" by code_simp
lemma d2: "detectNoteId ''Body\<newline><!-- Note ID: AB-1 -->'' = Some ''AB-1''" by code_simp
lemma d3: "detectNoteId ''Body\<newline><!-- Note ID: CD-2 -->'' = Some ''CD-2''" by code_simp


theorem batch_three_files_witness:
  "fst (BatchUpdate_run sample_world c7_flags [''a.md'', ''b.md'', ''c.md'']) =
     \<lparr>processed = 2, updated = 1, created = 1, skipped = 1, errors = 0\<rparr>"
proof -
  have w: "fs_write sample_world p b" for p b by (simp add: sample_world_def)
  have "(fst (BatchUpdate_run sample_world c7_flags [''a.md'', ''b.md'', ''c.md'']) =
           \<lparr>processed = 2, updated = 1, created = 1, skipped = 1, errors = 0\<rparr>) =
        (write_back c7_flags \<longrightarrow>
           fs_write sample_world ''b.md''
             (BatchUpdate_updateNote_enhanced (clock sample_world) c7_flags ''AB-1''
                ''Body\<newline><!-- Note ID: AB-1 -->'') \<and>
           fs_write sample_world ''c.md''
             (BatchUpdate_createNote_enhanced (clock sample_world) c7_flags ''CD-2''
                ''Body\<newline><!-- Note ID: CD-2 -->'')) \<and>
        (\<forall>w' flags' f c st. fs_read w' f = Some c \<longrightarrow> detectNoteId c = None \<longrightarrow>
            BatchUpdate_processFile w' flags' f st =
              ((fst st)\<lparr>skipped := skipped (fst st) + 1\<rparr>, snd st))"
    by (rule batch_three_files[where ?f1.0 = "''a.md''" and ?f2.0 = "''b.md''" and ?f3.0 = "''c.md''"
          and ?c1.0 = "''Plain text''" and ?c2.0 = "''Body\<newline><!-- Note ID: AB-1 -->''"
          and ?c3.0 = "''Body\<newline><!-- Note ID: CD-2 -->''" and ?x1.0 = "''AB-1''" and ?x2.0 = "''CD-2''"])
       (simp_all add: sample_world_def c7_flags_def d1 d2 d3)
  then show ?thesis by (simp add: w)
qed

section \<open>Write-back and the store mutation\<close>

text \<open>
  The commands \<open>Create\<close> and \<open>BatchUpdate\<close> write a body back only after the store
  has accepted the call that carried it.
\<close>

lemma writeBack_safe_after:
  "list_ex (mutation_ok w c) before \<Longrightarrow> write_back_safe w before (writeBackToFile w p c)"
  by (simp add: writeBackToFile_def)

lemma Create_updateExistingNote_safe:
  "write_back_safe w [] (fst (Create_updateExistingNote w flags noteId content))"
  by (simp add: Create_updateExistingNote_def Let_def writeBackToFile_def mutation_ok_def)

lemma Create_run_safe: "write_back_safe w [] (fst (Create_run w flags argText))"
  by (auto simp: Create_run_def Let_def writeBackToFile_def mutation_ok_def
      Create_updateExistingNote_safe split: option.splits)

lemma BatchUpdate_updateNote_safe:
  "write_back_safe w [] (fst (BatchUpdate_updateNote w flags p noteId content))"
  by (simp add: BatchUpdate_updateNote_def Let_def mutation_ok_def)

lemma BatchUpdate_createNote_safe:
  "write_back_safe w [] (fst (BatchUpdate_createNote w flags p noteId content))"
  by (simp add: BatchUpdate_createNote_def Let_def mutation_ok_def)

text \<open>
  C4 asks the same of every workflow. The enhanced \<open>UpdateText\<close> writes the file
  before it calls the store: with a store that rejects \<open>add-text\<close>, the file
  \<open>b.md\<close> has already been overwritten with the new footer when the call fails.
\<close>

theorem updatetext_writes_before_mutation:
  "UpdateText_run failing_world c4_flags None =
     ([OpenNote ''AB-1'', WriteFile ''b.md'' c4_body,
       AddText (Some ''AB-1'') None (Some c4_body) ''replace_all''], False) \<and>
   \<not> write_back_safe failing_world [] (fst (UpdateText_run failing_world c4_flags None))"
  by code_simp


section \<open>A supplied identifier against an embedded one\<close>

text \<open>
  C8 as stated fails when the differing marker is in the body being sent: with
  \<open>--id AAA\<close> and a body whose marker says \<open>BBB\<close>, and a stored note without a marker,
  the run logs no mismatch.
\<close>

theorem supplied_vs_body_marker_counterexample:
  "uf_id c8_flags = Some ''AAA'' \<and> detectNoteId c8_content = Some ''BBB'' \<and>
   fst (UpdateText_run c8_world_plain c8_flags (Some c8_content)) =
     [OpenNote ''AAA'',
      AddText (Some ''AAA'') None
        (Some ''Text\<newline>\<newline>---\<newline>*Created: Wed, Oct 15, 2025, 05:51 PM GMT+2*\<newline>*Last Updated: Wed, Oct 15, 2025, 05:51 PM GMT+2*\<newline><!-- Note ID: AAA -->'')
        ''replace_all''] \<and>
   LogIdMismatch ''BBB'' ''AAA'' \<notin> set (fst (UpdateText_run c8_world_plain c8_flags (Some c8_content)))"
  by code_simp


lemma findNote_supplied:
  "uf_id flags = Some sid \<Longrightarrow> sid \<noteq> [] \<Longrightarrow>
   UpdateText_findNote w flags content = ([], Some (Some sid, uf_title flags))"
  by (simp add: UpdateText_findNote_def truthy_def Let_def)

lemma checkEmbedded_mismatch:
  assumes "sid \<noteq> []" "bear_open_note w sid = Some cur" "detectNoteId cur = Some eid" "eid \<noteq> sid"
  shows "UpdateText_checkEmbedded w flags (Some sid) =
     OpenNote sid # LogIdMismatch eid sid #
       (if \<not> uf_no_confirm flags then [LogContinueWithCurrent] else [])"
  using assms detect_nonempty[OF assms(3)]
  by (simp add: UpdateText_checkEmbedded_def truthy_def Let_def)


text \<open>
  C8, as the code has it. When an identifier is supplied with \<open>--id\<close> and the note's
  current content in the store carries a marker with a different identifier, the
  run logs the mismatch, and its one store mutation is the \<open>add-text\<close> on the
  supplied identifier: the trace is the lookup, the warning, at most a write-back,
  and that call.
\<close>

theorem supplied_vs_remote_marker:
  assumes sid: "uf_id flags = Some sid" "sid \<noteq> []"
    and remote: "bear_open_note w sid = Some cur" "detectNoteId cur = Some eid" "eid \<noteq> sid"
    and loaded: "truthy (uf_content_file flags) \<longrightarrow> fs_read w (the (uf_content_file flags)) \<noteq> None"
  shows "\<exists>ev3 title body m.
           fst (UpdateText_run w flags arg) =
             [OpenNote sid, LogIdMismatch eid sid] @
             (if \<not> uf_no_confirm flags then [LogContinueWithCurrent] else []) @
             ev3 @ [AddText (Some sid) title body m] \<and>
           (\<forall>e\<in>set ev3. \<exists>p c. e = WriteFile p c \<or> e = LogWriteBackFailed)"
proof -
  obtain content where c: "(if truthy (uf_content_file flags)
            then map_option Some (fs_read w (the (uf_content_file flags)))
            else Some arg) = Some content"
    using loaded by (cases "truthy (uf_content_file flags)") auto
  let ?wb = "(if truthy content \<and> uf_write_back flags \<and> truthy (uf_content_file flags)
             then writeBackToFile w (the (uf_content_file flags))
                    (UpdateText_enhanceContent (clock w) (the content) sid flags)
             else [])"
  have wb: "\<forall>e\<in>set ?wb. \<exists>p c. e = WriteFile p c \<or> e = LogWriteBackFailed"
    by (auto simp: writeBackToFile_def)
  have "fst (UpdateText_run w flags arg) =
          [OpenNote sid, LogIdMismatch eid sid] @
          (if \<not> uf_no_confirm flags then [LogContinueWithCurrent] else []) @ ?wb @
          [AddText (Some sid) (uf_title flags)
             (if truthy content
              then Some (UpdateText_enhanceContent (clock w) (the content) sid flags) else content)
             (if truthy (uf_mode flags) then the (uf_mode flags) else ''replace_all'')]"
  proof -
    have ts: "truthy (Some sid)" using sid(2) by (simp add: truthy_def)
    show ?thesis
      by (simp add: UpdateText_run_def c findNote_supplied[OF sid]
          checkEmbedded_mismatch[OF sid(2) remote] Let_def ts)
  qed
  with wb show ?thesis by blast
qed


theorem supplied_vs_remote_marker_witness:
  "\<exists>ev3 title body m.
     fst (UpdateText_run c8_world_marked c8_flags (Some c8_content)) =
       [OpenNote ''AAA'', LogIdMismatch ''BBB'' ''AAA''] @
       (if \<not> uf_no_confirm c8_flags then [LogContinueWithCurrent] else []) @
       ev3 @ [AddText (Some ''AAA'') title body m] \<and>
     (\<forall>e\<in>set ev3. \<exists>p c. e = WriteFile p c \<or> e = LogWriteBackFailed)"
proof (rule supplied_vs_remote_marker[where cur = "''Remote body\<newline><!-- Note ID: BBB -->''"])
  show "detectNoteId ''Remote body\<newline><!-- Note ID: BBB -->'' = Some ''BBB''" by code_simp
qed (simp_all add: c8_flags_def c8_world_marked_def sample_world_def truthy_def)

section \<open>Stripping a body without footer\<close>

subsection \<open>The last step is the normalisation\<close>



lemma ms_nonempty_iff: "ms r s \<noteq> [] \<longleftrightarrow> (\<exists>m t. s = m @ t \<and> mt r m t)"
  using ms_empty_iff[of r s] by blast

lemma newlinesPattern_alt:
  "newlinesPattern = Seq (Str ''\<newline>'') (Seq (Plus Newline) Eoi)"
  by (simp add: newlinesPattern_def)

lemma newlines_mtI:
  assumes "n \<noteq> []" "\<forall>c\<in>set n. c = CHR ''\<newline>''"
  shows "mt newlinesPattern (''\<newline>'' @ n) []"
  unfolding newlinesPattern_alt
proof (rule mt_SeqI[where ?m1.0 = "''\<newline>''" and ?m2.0 = n])
  show "mt (Seq (Plus Newline) Eoi) n []"
    by (rule mt_SeqI[where ?m1.0 = n and ?m2.0 = "[]"]) (use assms in simp_all)
qed simp_all

lemma newlines_match_iff:
  "ms newlinesPattern s \<noteq> [] \<longleftrightarrow> (\<forall>c\<in>set s. c = CHR ''\<newline>'') \<and> 2 \<le> length s"
proof
  assume "ms newlinesPattern s \<noteq> []"
  then obtain m t where s: "s = m @ t" and mt: "mt newlinesPattern m t"
    by (auto simp: ms_nonempty_iff)
  from newlines_mtD[OF mt] obtain n where "t = []" "n \<noteq> []" "\<forall>c\<in>set n. c = CHR ''\<newline>''"
    "m = ''\<newline>'' @ n" by blast
  then show "(\<forall>c\<in>set s. c = CHR ''\<newline>'') \<and> 2 \<le> length s"
    using s by (cases n) auto
next
  assume a: "(\<forall>c\<in>set s. c = CHR ''\<newline>'') \<and> 2 \<le> length s"
  then obtain c n where cn: "s = c # n" by (cases s) simp_all
  with a have s: "s = CHR ''\<newline>'' # n" by simp
  have n: "n \<noteq> []" "\<forall>c\<in>set n. c = CHR ''\<newline>''"
    using a cn by (cases n, simp_all)
  from newlines_mtI[OF n] have "mt newlinesPattern s []" using s by simp
  then show "ms newlinesPattern s \<noteq> []" by (auto simp: ms_nonempty_iff)
qed

lemma newlines_match_head:
  assumes "ms newlinesPattern s = t # ts" shows "t = []"
proof -
  from assms have "t \<in> set (ms newlinesPattern s)" by simp
  then obtain m where "mt newlinesPattern m t" by (auto simp: ms_set)
  from newlines_mtD[OF this] show ?thesis by simp
qed

lemma replace_all_Nil_nomatch: "ms r [] = [] \<Longrightarrow> replace_all r rep [] = []"
  by (simp add: replace_all.simps)

lemma normalize_Cons:
  "normalize (c # s) =
     (if (\<forall>x\<in>set s. x = CHR ''\<newline>'') \<and> c = CHR ''\<newline>'' \<and> s \<noteq> [] then ''\<newline>''
      else c # normalize s)"
proof (cases "\<forall>x\<in>set s. x = CHR ''\<newline>''")
  case True
  then have d: "dropWhile (\<lambda>c. c = CHR ''\<newline>'') (rev s) = []" by simp
  have d': "dropWhile (\<lambda>c. c = CHR ''\<newline>'') (rev s @ [c]) =
            (if c = CHR ''\<newline>'' then [] else [c])"
    using True by (simp add: dropWhile_append)
  have len: "s \<noteq> [] \<longleftrightarrow> 1 \<le> length s" by (cases s) simp_all
  show ?thesis
    unfolding normalize_def Let_def rev.simps d d'
    using True len by (cases s) simp_all
next
  case False
  then have d': "dropWhile (\<lambda>c. c = CHR ''\<newline>'') (rev s @ [c]) =
            dropWhile (\<lambda>c. c = CHR ''\<newline>'') (rev s) @ [c]"
    by (simp add: dropWhile_append)
  show ?thesis
    unfolding normalize_def Let_def rev.simps d'
    using False by simp
qed




lemma replace_newlines_normalize: "replace_all newlinesPattern ''\<newline>'' s = normalize s"
proof (induction s)
  case Nil
  have "ms newlinesPattern [] = []" using newlines_match_iff[of "[]"] by simp
  then show ?case by (simp add: replace_all.simps normalize_def)
next
  case (Cons c s)
  show ?case
  proof (cases "ms newlinesPattern (c # s)")
    case Nil
    then have "\<not> ((\<forall>x\<in>set (c # s). x = CHR ''\<newline>'') \<and> 2 \<le> length (c # s))"
      using newlines_match_iff[of "c # s"] by simp
    note nomatch = this
    have "\<not> ((\<forall>x\<in>set s. x = CHR ''\<newline>'') \<and> c = CHR ''\<newline>'' \<and> s \<noteq> [])"
    proof
      assume a: "(\<forall>x\<in>set s. x = CHR ''\<newline>'') \<and> c = CHR ''\<newline>'' \<and> s \<noteq> []"
      then have "\<forall>x\<in>set (c # s). x = CHR ''\<newline>''" by simp
      moreover have "2 \<le> length (c # s)" using a by (cases s) simp_all
      ultimately show False using nomatch by blast
    qed
    then have "normalize (c # s) = c # normalize s"
      unfolding normalize_Cons[of c s] by (rule if_not_P)
    then show ?thesis using Nil Cons.IH by (simp add: replace_all.simps[of _ _ "c # s"])
  next
    case (Cons t ts)
    then have t: "t = []" by (rule newlines_match_head)
    have "ms newlinesPattern (c # s) \<noteq> []" using Cons by simp
    then have all: "(\<forall>x\<in>set (c # s). x = CHR ''\<newline>'') \<and> 2 \<le> length (c # s)"
      using newlines_match_iff[of "c # s"] by blast
    then have "(\<forall>x\<in>set s. x = CHR ''\<newline>'') \<and> c = CHR ''\<newline>'' \<and> s \<noteq> []"
      by (cases s) simp_all
    then have "normalize (c # s) = ''\<newline>''"
      unfolding normalize_Cons[of c s] by (rule if_P)
    moreover have "ms newlinesPattern [] = []" using newlines_match_iff[of "[]"] by simp
    ultimately show ?thesis using Cons t
      by (simp add: replace_all.simps[of _ _ "c # s"] replace_all_Nil_nomatch)
  qed
qed



subsection \<open>A body without marker\<close>


lemma marker_match:
  assumes "id_ok i"
  shows "ms noteIdPattern (''<!-- Note ID: '' @ i @ '' -->'' @ rest) \<noteq> []"
proof -
  have "mt noteIdPattern (''<!-- Note ID: '' @ i @ '' -->'') rest"
    using assms by (rule marker_mtI)
  then have "\<exists>m t. ''<!-- Note ID: '' @ i @ '' -->'' @ rest = m @ t \<and> mt noteIdPattern m t"
    by (intro exI[of _ "''<!-- Note ID: '' @ i @ '' -->''"] exI[of _ rest]) simp
  then show ?thesis by (simp only: ms_nonempty_iff)
qed

lemma no_match_suffix: "no_match r s \<Longrightarrow> suffix v s \<Longrightarrow> no_match r v"
  unfolding no_match_def using suffix_order.trans by blast

lemma no_match_appendD: "no_match r (x @ y) \<Longrightarrow> no_match r y"
  by (erule no_match_suffix) (rule suffix_appendI, rule suffix_order.refl)

lemma no_marker_inside:
  assumes "no_match noteIdPattern s" "id_ok i"
  shows "s \<noteq> pre @ ''<!-- Note ID: '' @ i @ '' -->'' @ rest"
proof
  assume s: "s = pre @ ''<!-- Note ID: '' @ i @ '' -->'' @ rest"
  then have "suffix (''<!-- Note ID: '' @ i @ '' -->'' @ rest) s" by (simp add: suffix_def)
  with assms(1) have "ms noteIdPattern (''<!-- Note ID: '' @ i @ '' -->'' @ rest) = []"
    by (simp add: no_match_def)
  with marker_match[OF assms(2)] show False by blast
qed

lemma no_marker_no_footer:
  assumes "no_match noteIdPattern s"
  shows "no_match footerPattern s"
  unfolding no_match_def
proof (intro allI impI)
  fix v assume v: "suffix v s"
  show "ms footerPattern v = []"
  proof (rule ccontr)
    assume "ms footerPattern v \<noteq> []"
    then obtain m t where vm: "v = m @ t" and mt: "mt footerPattern m t"
      by (auto simp: ms_nonempty_iff)
    from footer_mtD[OF mt] obtain l1 g i ws where
      m: "m = ''\<newline>\<newline>---\<newline>*Created:'' @ l1 @ ''\<newline>'' @ g @ ''<!-- Note ID: '' @ i @ '' -->'' @ ws"
      and i: "id_ok i" by blast
    from v obtain u where "s = u @ v" by (auto simp: suffix_def)
    then have "s = (u @ ''\<newline>\<newline>---\<newline>*Created:'' @ l1 @ ''\<newline>'' @ g) @
                   ''<!-- Note ID: '' @ i @ '' -->'' @ (ws @ t)"
      using vm m by simp
    with no_marker_inside[OF assms i] show False by blast
  qed
qed

lemma no_marker_no_standalone:
  assumes "no_match noteIdPattern s"
  shows "no_match standalonePattern s"
  unfolding no_match_def
proof (intro allI impI)
  fix v assume v: "suffix v s"
  show "ms standalonePattern v = []"
  proof (rule ccontr)
    assume "ms standalonePattern v \<noteq> []"
    then obtain m t where vm: "v = m @ t" and mt: "mt standalonePattern m t"
      by (auto simp: ms_nonempty_iff)
    from standalone_mtD[OF mt] obtain n i ws where
      m: "m = n @ ''<!-- Note ID: '' @ i @ '' -->'' @ ws" and i: "id_ok i" by blast
    from v obtain u where "s = u @ v" by (auto simp: suffix_def)
    then have "s = (u @ n) @ ''<!-- Note ID: '' @ i @ '' -->'' @ (ws @ t)"
      using vm m by simp
    with no_marker_inside[OF assms i] show False by blast
  qed
qed

lemma strip_unmarked:
  assumes "detectNoteId B = None" "find_match separatorPattern B = None"
  shows "Create_stripExistingFooter B = normalize B"
proof -
  have nm: "no_match noteIdPattern B" using assms(1) by (simp add: detect_None_iff)
  have ns: "no_match separatorPattern B" using assms(2) by (simp add: find_match_None)
  show ?thesis
    by (simp add: Create_stripExistingFooter_def Let_def
        replace_first_no_match[OF no_marker_no_footer[OF nm]]
        replace_all_no_match[OF no_marker_no_standalone[OF nm]]
        replace_all_no_match[OF ns] replace_newlines_normalize)
qed



lemma ms_nonemptyI: "s = m @ t \<Longrightarrow> mt r m t \<Longrightarrow> ms r s \<noteq> []"
  unfolding ms_nonempty_iff by blast

lemma no_marker_prefix:
  assumes "no_match noteIdPattern (x @ y)"
  shows "no_match noteIdPattern x"
  unfolding no_match_def
proof (intro allI impI)
  fix v assume v: "suffix v x"
  show "ms noteIdPattern v = []"
  proof (rule ccontr)
    assume "ms noteIdPattern v \<noteq> []"
    then obtain m t where vm: "v = m @ t" and mt: "mt noteIdPattern m t"
      by (auto simp: ms_nonempty_iff)
    from marker_mtD[OF mt] obtain i where i: "id_ok i" and m: "m = ''<!-- Note ID: '' @ i @ '' -->''"
      by blast
    from v obtain u where "x = u @ v" by (auto simp: suffix_def)
    then have "x @ y = u @ ''<!-- Note ID: '' @ i @ '' -->'' @ (t @ y)" using vm m by simp
    with no_marker_inside[OF assms i] show False by blast
  qed
qed

lemma normalize_cases:
  "normalize s = s \<or>
   (\<exists>p n. s = p @ CHR ''\<newline>'' # n \<and> n \<noteq> [] \<and> (\<forall>c\<in>set n. c = CHR ''\<newline>'') \<and>
      normalize s = p @ ''\<newline>'')"
proof (cases "length (rev (dropWhile (\<lambda>c. c = CHR ''\<newline>'') (rev s))) + 2 \<le> length s")
  case False
  then show ?thesis by (simp add: normalize_def Let_def)
next
  case True
  let ?P = "\<lambda>c. c = CHR ''\<newline>''"
  let ?body = "rev (dropWhile ?P (rev s))"
  let ?tail = "rev (takeWhile ?P (rev s))"
  have "rev s = takeWhile ?P (rev s) @ dropWhile ?P (rev s)" by simp
  then have "rev (rev s) = rev (takeWhile ?P (rev s) @ dropWhile ?P (rev s))" by (rule arg_cong)
  then have s: "s = ?body @ ?tail" by (simp only: rev_rev_ident rev_append)
  have tl_nl: "\<forall>c\<in>set ?tail. c = CHR ''\<newline>''" using set_takeWhileD[of _ ?P "rev s"] by auto
  have "length s = length ?body + length ?tail" by (subst s) simp
  with True have len: "2 \<le> length ?tail" by linarith
  then obtain c n where cn: "?tail = c # n" by (cases ?tail) simp_all
  with len have n: "n \<noteq> []" by (cases n) simp_all
  from cn tl_nl have c: "c = CHR ''\<newline>''" and nn: "\<forall>c\<in>set n. c = CHR ''\<newline>''" by simp_all
  have "s = ?body @ CHR ''\<newline>'' # n" using s cn c by simp
  moreover have "normalize s = ?body @ ''\<newline>''" using True by (simp add: normalize_def Let_def)
  ultimately show ?thesis using n nn by blast
qed

lemma normalize_idem: "normalize (normalize s) = normalize s"
proof (cases "length (rev (dropWhile (\<lambda>c. c = CHR ''\<newline>'') (rev s))) + 2 \<le> length s")
  case False
  then have "normalize s = s" by (simp add: normalize_def Let_def)
  then show ?thesis by simp
next
  case True
  let ?P = "\<lambda>c. c = CHR ''\<newline>''"
  let ?body = "rev (dropWhile ?P (rev s))"
  have n: "normalize s = ?body @ ''\<newline>''" using True by (simp add: normalize_def Let_def)
  have "dropWhile ?P (rev (?body @ ''\<newline>'')) = dropWhile ?P (rev s)" by simp
  then have "normalize (?body @ ''\<newline>'') = ?body @ ''\<newline>''"
    unfolding normalize_def Let_def by simp
  with n show ?thesis by simp
qed

lemma separatorPattern_alt:
  "separatorPattern = Seq (Str ''\<newline>\<newline>---'') (Seq (Star Space) Eoi)"
  by (simp add: separatorPattern_def)

lemma separator_mtI:
  assumes "\<forall>c\<in>set ws. is_space c"
  shows "mt separatorPattern (''\<newline>\<newline>---'' @ ws) []"
  unfolding separatorPattern_alt
proof (rule mt_SeqI[where ?m1.0 = "''\<newline>\<newline>---''" and ?m2.0 = ws])
  show "mt (Seq (Star Space) Eoi) ws []"
    by (rule mt_SeqI[where ?m1.0 = ws and ?m2.0 = "[]"]) (use assms in simp_all)
qed simp_all

lemma is_space_nl: "is_space (CHR ''\<newline>'')"
  by (simp add: is_space_def)

lemma no_marker_normalize:
  assumes "no_match noteIdPattern s"
  shows "no_match noteIdPattern (normalize s)"
proof -
  from normalize_cases[of s] show ?thesis
  proof
    assume "normalize s = s" with assms show ?thesis by simp
  next
    assume "\<exists>p n. s = p @ CHR ''\<newline>'' # n \<and> n \<noteq> [] \<and> (\<forall>c\<in>set n. c = CHR ''\<newline>'') \<and>
      normalize s = p @ ''\<newline>''"
    then obtain p n where s: "s = p @ CHR ''\<newline>'' # n" and ns: "normalize s = p @ ''\<newline>''"
      by blast
    from s have "s = (p @ ''\<newline>'') @ n" by simp
    with assms have "no_match noteIdPattern ((p @ ''\<newline>'') @ n)" by simp
    then have "no_match noteIdPattern (p @ ''\<newline>'')" by (rule no_marker_prefix)
    with ns show ?thesis by simp
  qed
qed


section \<open>Stripping a rendered footer\<close>

subsection \<open>The footer pattern finds the rendered footer, and only there\<close>


lemma replace_first_hit: "ms r s = t # ts \<Longrightarrow> replace_first r rep s = rep @ t"
  by (cases s) simp_all

lemma footer_hit:
  assumes "ms footerPattern s \<noteq> []"
  shows "\<exists>ts. ms footerPattern s = [] # ts"
proof -
  from assms obtain t ts where ms: "ms footerPattern s = t # ts" by (cases "ms footerPattern s") simp_all
  then have "t \<in> set (ms footerPattern s)" by simp
  then obtain m where "mt footerPattern m t" by (auto simp: ms_set)
  from footer_mtD[OF this] have "t = []" by simp
  with ms show ?thesis by simp
qed

lemma strip_after_footer:
  assumes "no_match noteIdPattern B" "no_match separatorPattern B"
  shows "replace_all newlinesPattern ''\<newline>''
           (replace_all separatorPattern [] (replace_all standalonePattern [] B)) = normalize B"
  by (simp add: replace_all_no_match[OF no_marker_no_standalone[OF assms(1)]]
      replace_all_no_match[OF assms(2)] replace_newlines_normalize)

lemma footer_removed:
  assumes x1: "CHR ''\<newline>'' \<notin> set x1"
    and g': "g' = [] \<or> (\<exists>x2. g' = ''*Last Updated:'' @ x2 @ ''\<newline>'' \<and> CHR ''\<newline>'' \<notin> set x2)"
    and I: "id_ok I" and ws: "\<forall>c\<in>set ws. is_space c"
  shows "replace_first footerPattern []
           (B @ ''\<newline>\<newline>---\<newline>*Created:'' @ x1 @ ''\<newline>'' @ g' @ ''<!-- Note ID: '' @ I @ '' -->'' @ ws) = B"
proof -
  let ?T = "''\<newline>\<newline>---\<newline>*Created:'' @ x1 @ ''\<newline>'' @ g' @ ''<!-- Note ID: '' @ I @ '' -->'' @ ws"
  have skip: "replace_first footerPattern [] (B @ ?T) = B @ replace_first footerPattern [] ?T"
    by (rule replace_first_skip) (rule footer_no_early[OF _ x1 g' I ws])
  have "mt footerPattern ?T []" using I x1 ws g' by (rule footer_mtI)
  then have "ms footerPattern ?T \<noteq> []" by (rule ms_nonemptyI[rotated]) simp
  from footer_hit[OF this] obtain ts where "ms footerPattern ?T = [] # ts" by blast
  then have "replace_first footerPattern [] ?T = [] @ []" by (rule replace_first_hit)
  with skip show ?thesis by simp
qed

lemma strip_with_footer:
  assumes B: "detectNoteId B = None" "find_match separatorPattern B = None"
    and x1: "CHR ''\<newline>'' \<notin> set x1"
    and g': "g' = [] \<or> (\<exists>x2. g' = ''*Last Updated:'' @ x2 @ ''\<newline>'' \<and> CHR ''\<newline>'' \<notin> set x2)"
    and I: "id_ok I" and ws: "\<forall>c\<in>set ws. is_space c"
  shows "Create_stripExistingFooter
           (B @ ''\<newline>\<newline>---\<newline>*Created:'' @ x1 @ ''\<newline>'' @ g' @ ''<!-- Note ID: '' @ I @ '' -->'' @ ws) =
         normalize B"
proof -
  have nm: "no_match noteIdPattern B" using B(1) by (simp add: detect_None_iff)
  have ns: "no_match separatorPattern B" using B(2) by (simp add: find_match_None)
  show ?thesis
    unfolding Create_stripExistingFooter_def Let_def footer_removed[OF x1 g' I ws]
    by (rule strip_after_footer[OF nm ns])
qed



lemma digit_char_digit: "d < 10 \<Longrightarrow> digit_char d \<in> set ''0123456789''"
  unfolding digit_char_def by (rule nth_mem) simp

lemma toString_digits: "set (toString n) \<subseteq> set ''0123456789''"
proof (induction n rule: toString.induct)
  case (1 n)
  show ?case
  proof (cases "n < 10")
    case True
    then show ?thesis using digit_char_digit[of n] by (subst toString.simps) simp
  next
    case False
    have "n mod 10 < 10" by simp
    from digit_char_digit[OF this] 1[OF False] False show ?thesis
      by (subst toString.simps) simp
  qed
qed

lemma toString_no_nl: "CHR ''\<newline>'' \<notin> set (toString n)"
  using toString_digits[of n] by auto

lemma padStart_no_nl: "CHR ''\<newline>'' \<notin> set s \<Longrightarrow> CHR ''\<newline>'' \<notin> set (padStart k (CHR ''0'') s)"
  by (simp add: padStart_def)

lemma buildGMTOffset_no_nl: "CHR ''\<newline>'' \<notin> set (buildGMTOffset d)"
  by (simp add: buildGMTOffset_def Let_def toString_no_nl padStart_no_nl)

lemma formatDate_no_nl:
  "CHR ''\<newline>'' \<notin> set (localeString d) \<Longrightarrow> CHR ''\<newline>'' \<notin> set (formatDate d)"
  by (simp add: formatDate_def Let_def buildGMTOffset_no_nl)

lemma BatchUpdate_strip_eq: "BatchUpdate_stripExistingFooter content = Create_stripExistingFooter content"
  unfolding BatchUpdate_stripExistingFooter_def Create_stripExistingFooter_def footerPattern_def
    standalonePattern_def separatorPattern_def newlinesPattern_def Let_def
  by simp

lemma UpdateText_strip_eq: "UpdateText_stripExistingFooter content = Create_stripExistingFooter content"
  unfolding UpdateText_stripExistingFooter_def Create_stripExistingFooter_def footerPattern_def
    standalonePattern_def separatorPattern_def newlinesPattern_def Let_def
  by simp


text \<open>
  C1 as stated fails: a body may have neither marker nor footer and still end in a
  bare separator, which the stripper removes after the footer.
\<close>

theorem render_then_strip_counterexample:
  "detectNoteId ''Hello\<newline>\<newline>---'' = None \<and>
   BatchUpdate_stripExistingFooter
     (''Hello\<newline>\<newline>---'' @ BatchUpdate_buildUpdateFooter sample_date ''ABC-123'' True True) = ''Hello'' \<and>
   normalize ''Hello\<newline>\<newline>---'' = ''Hello\<newline>\<newline>---''"
  by code_simp


text \<open>
  C1, as the code has it. For every body B without identity marker that does not
  end in a bare separator, every well-formed identifier I, and every instant whose
  locale rendering has no line break: stripping B followed by the update footer
  for I (Created, Last Updated and marker) gives B normalised to at most one
  trailing newline.
\<close>

theorem render_then_strip:
  assumes "detectNoteId B = None" "find_match separatorPattern B = None"
    and "id_ok I" and "CHR ''\<newline>'' \<notin> set (localeString now)"
  shows "BatchUpdate_stripExistingFooter (B @ BatchUpdate_buildUpdateFooter now I True True) =
         normalize B"
proof -
  let ?x = "'' '' @ formatDate now @ ''*''"
  have x: "CHR ''\<newline>'' \<notin> set ?x" using formatDate_no_nl[OF assms(4)] by simp
  have g: "''*Last Updated:'' @ ?x @ ''\<newline>'' = [] \<or>
           (\<exists>x2. ''*Last Updated:'' @ ?x @ ''\<newline>'' = ''*Last Updated:'' @ x2 @ ''\<newline>'' \<and>
                 CHR ''\<newline>'' \<notin> set x2)"
    using x by blast
  have ws: "\<forall>c\<in>set []. is_space c" by simp
  have "B @ BatchUpdate_buildUpdateFooter now I True True =
        B @ ''\<newline>\<newline>---\<newline>*Created:'' @ ?x @ ''\<newline>'' @ (''*Last Updated:'' @ ?x @ ''\<newline>'') @
        ''<!-- Note ID: '' @ I @ '' -->'' @ []"
    by (simp add: BatchUpdate_buildUpdateFooter_def Let_def)
  then show ?thesis
    unfolding BatchUpdate_strip_eq
    using strip_with_footer[OF assms(1,2) x g assms(3) ws] by simp
qed

theorem render_then_strip_witness:
  "BatchUpdate_stripExistingFooter
     (''Hello\<newline>\<newline>\<newline>'' @ BatchUpdate_buildUpdateFooter sample_date ''ABC-123'' True True) =
   ''Hello\<newline>''"
proof -
  have a: "detectNoteId ''Hello\<newline>\<newline>\<newline>'' = None" by code_simp
  have b: "find_match separatorPattern ''Hello\<newline>\<newline>\<newline>'' = None" by code_simp
  have c: "id_ok ''ABC-123''" by code_simp
  have d: "CHR ''\<newline>'' \<notin> set (localeString sample_date)" by code_simp
  have e: "normalize ''Hello\<newline>\<newline>\<newline>'' = ''Hello\<newline>''" by code_simp
  show ?thesis using render_then_strip[OF a b c d] unfolding e .
qed


subsection \<open>A marker directly under the separator\<close>


lemma star_alts_first:
  assumes "\<forall>c\<in>set m. P c" "t = [] \<or> \<not> P (hd t)"
  shows "\<exists>r. star_alts P (m @ t) = t # r"
  using assms
proof (induction m)
  case Nil
  then show ?case by (cases t) auto
next
  case (Cons c m)
  then obtain r where "star_alts P (m @ t) = t # r" by auto
  with Cons.prems show ?case by simp
qed

lemma plus_alts_first:
  assumes "m \<noteq> []" "\<forall>c\<in>set m. P c" "t = [] \<or> \<not> P (hd t)"
  shows "\<exists>r. plus_alts P (m @ t) = t # r"
proof -
  from assms(1) obtain c m' where m: "m = c # m'" by (cases m) simp_all
  with assms(2) have "\<forall>c\<in>set m'. P c" "P c" by simp_all
  from star_alts_first[OF this(1) assms(3)] obtain r where "star_alts P (m' @ t) = t # r" by blast
  with m \<open>P c\<close> show ?thesis by simp
qed

lemma ms_Seq_first:
  assumes "ms a s = t1 # r1" "ms b t1 = u # r2"
  shows "\<exists>r. ms (Seq a b) s = u # r"
  using assms by simp

lemma ms_Str_first: "ms (Str w) (w @ s) = [s]"
  by simp

lemma standalonePattern_alt:
  "standalonePattern =
     Seq (Star Newline) (Seq (Str ''<!-- Note ID: '')
       (Seq (Plus IdChar) (Seq (Str '' -->'') (Star Space))))"
  by (simp add: standalonePattern_def)

lemma not_id_char_space: "\<not> is_id_char (CHR '' '')"
  by (simp add: is_id_char_def)

lemma standalone_first:
  assumes I: "id_ok I" and ws: "\<forall>c\<in>set ws. is_space c" and n: "\<forall>c\<in>set n. c = CHR ''\<newline>''"
    and rest: "rest = [] \<or> \<not> is_space (hd rest)"
  shows "\<exists>ts. ms standalonePattern (n @ ''<!-- Note ID: '' @ I @ '' -->'' @ ws @ rest) = rest # ts"
proof -
  have "\<forall>c\<in>set ws. in_cls Space c" "rest = [] \<or> \<not> in_cls Space (hd rest)"
    using ws rest by simp_all
  from star_alts_first[OF this]
  obtain r1 where s1: "ms (Star Space) (ws @ rest) = rest # r1" unfolding ms.simps by blast
  have s2: "ms (Str '' -->'') ('' -->'' @ ws @ rest) = [ws @ rest]" by (rule ms_Str_first)
  from ms_Seq_first[OF s2 s1] obtain r3 where
    s3: "ms (Seq (Str '' -->'') (Star Space)) ('' -->'' @ ws @ rest) = rest # r3" by blast
  have "I \<noteq> []" "\<forall>c\<in>set I. in_cls IdChar c"
    "'' -->'' @ ws @ rest = [] \<or> \<not> in_cls IdChar (hd ('' -->'' @ ws @ rest))"
    using I not_id_char_space by (simp_all add: id_ok_iff)
  from plus_alts_first[OF this]
  obtain r4 where s4: "ms (Plus IdChar) (I @ '' -->'' @ ws @ rest) = ('' -->'' @ ws @ rest) # r4"
    unfolding ms.simps by blast
  from ms_Seq_first[OF s4 s3] obtain r5 where
    s5: "ms (Seq (Plus IdChar) (Seq (Str '' -->'') (Star Space))) (I @ '' -->'' @ ws @ rest) = rest # r5"
    by blast
  have s6: "ms (Str ''<!-- Note ID: '') (''<!-- Note ID: '' @ I @ '' -->'' @ ws @ rest) =
            [I @ '' -->'' @ ws @ rest]" by (rule ms_Str_first)
  from ms_Seq_first[OF s6 s5] obtain r7 where
    s7: "ms (Seq (Str ''<!-- Note ID: '') (Seq (Plus IdChar) (Seq (Str '' -->'') (Star Space))))
           (''<!-- Note ID: '' @ I @ '' -->'' @ ws @ rest) = rest # r7"
    by blast
  have "\<forall>c\<in>set n. in_cls Newline c"
    "''<!-- Note ID: '' @ I @ '' -->'' @ ws @ rest = [] \<or>
     \<not> in_cls Newline (hd (''<!-- Note ID: '' @ I @ '' -->'' @ ws @ rest))"
    using n by simp_all
  from star_alts_first[OF this]
  obtain r8 where s8: "ms (Star Newline) (n @ ''<!-- Note ID: '' @ I @ '' -->'' @ ws @ rest) =
      (''<!-- Note ID: '' @ I @ '' -->'' @ ws @ rest) # r8"
    unfolding ms.simps by blast
  from ms_Seq_first[OF s8 s7] show ?thesis unfolding standalonePattern_alt by blast
qed



lemma footer_needs_star:
  assumes "CHR ''*'' \<notin> set v"
  shows "ms footerPattern v = []"
proof (rule ccontr)
  assume "ms footerPattern v \<noteq> []"
  then obtain m t where v: "v = m @ t" and mt: "mt footerPattern m t"
    by (auto simp: ms_nonempty_iff)
  from footer_mtD[OF mt] obtain l1 g i ws where
    "m = ''\<newline>\<newline>---\<newline>*Created:'' @ l1 @ ''\<newline>'' @ g @ ''<!-- Note ID: '' @ i @ '' -->'' @ ws"
    by blast
  then have "CHR ''*'' \<in> set m" by simp
  with v assms show False by simp
qed

lemma footer_no_match_bare:
  assumes I: "id_ok I" and ws: "\<forall>c\<in>set ws. is_space c"
  shows "ms footerPattern (D @ ''\<newline>\<newline>---\<newline>'' @ ''<!-- Note ID: '' @ I @ '' -->'' @ ws) = []"
proof (rule ccontr)
  let ?s = "D @ ''\<newline>\<newline>---\<newline>'' @ ''<!-- Note ID: '' @ I @ '' -->'' @ ws"
  assume "ms footerPattern ?s \<noteq> []"
  then obtain m t where eq: "?s = m @ t" and mt: "mt footerPattern m t"
    by (auto simp: ms_nonempty_iff)
  from footer_mtD[OF mt] obtain l1 g i ws' where t: "t = []" and
    m: "m = ''\<newline>\<newline>---\<newline>*Created:'' @ l1 @ ''\<newline>'' @ g @ ''<!-- Note ID: '' @ i @ '' -->'' @ ws'" and
    i: "id_ok i" and l1: "CHR ''\<newline>'' \<notin> set l1" and ws': "\<forall>c\<in>set ws'. is_space c" and
    g: "g = [] \<or> (\<exists>l2. g = ''*Last Updated:'' @ l2 @ ''\<newline>'' \<and> CHR ''\<newline>'' \<notin> set l2)"
    by blast
  have "(D @ ''\<newline>\<newline>---\<newline>'' @ ''<!-- Note ID: '' @ I @ '' --'') @ CHR ''>'' # ws =
        (''\<newline>\<newline>---\<newline>*Created:'' @ l1 @ ''\<newline>'' @ g @ ''<!-- Note ID: '' @ i @ '' --'') @ CHR ''>'' # ws'"
    using eq t m by simp
  from strip_trailing_space[OF this ws ws'] have body:
    "D @ ''\<newline>\<newline>---\<newline>'' @ ''<!-- Note ID: '' @ I @ '' --'' =
     ''\<newline>\<newline>---\<newline>*Created:'' @ l1 @ ''\<newline>'' @ g @ ''<!-- Note ID: '' @ i @ '' --''"
    by blast
  have nlI: "CHR ''\<newline>'' \<notin> set I" "CHR ''\<newline>'' \<notin> set i" using I i by (simp_all add: id_ok_no_nl)
  note lines = arg_cong[OF body, of "\<lambda>s. rev (splitnl s)"]
  show False
  proof (cases "g = []")
    case True
    with lines l1 nlI show ?thesis
      by (simp add: splitnl_append_nl splitnl_no_nl)
  next
    case False
    with g obtain l2 where "g = ''*Last Updated:'' @ l2 @ ''\<newline>''" "CHR ''\<newline>'' \<notin> set l2"
      by blast
    with lines l1 nlI show ?thesis
      by (simp add: splitnl_append_nl splitnl_no_nl)
  qed
qed

lemma not_id_char_star: "\<not> is_id_char (CHR ''*'')"
  by (simp add: is_id_char_def)

lemma not_space_star: "\<not> is_space (CHR ''*'')"
  by (simp add: is_space_def)

lemma footer_absent_bare:
  assumes I: "id_ok I" and ws: "\<forall>c\<in>set ws. is_space c"
  shows "no_match footerPattern (B @ ''\<newline>\<newline>---\<newline>'' @ ''<!-- Note ID: '' @ I @ '' -->'' @ ws)"
  unfolding no_match_def
proof (intro allI impI)
  let ?T = "''\<newline>\<newline>---\<newline>'' @ ''<!-- Note ID: '' @ I @ '' -->'' @ ws"
  fix v assume "suffix v (B @ ?T)"
  then consider "suffix v ?T" | D where "v = D @ ?T"
    unfolding suffix_append by blast
  then show "ms footerPattern v = []"
  proof cases
    case 1
    have "CHR ''*'' \<notin> set I" using I not_id_char_star unfolding id_ok_iff by blast
    moreover have "CHR ''*'' \<notin> set ws" using ws not_space_star by blast
    ultimately have "CHR ''*'' \<notin> set ?T" by simp
    moreover from 1 have "set v \<subseteq> set ?T" by (rule set_mono_suffix)
    ultimately have "CHR ''*'' \<notin> set v" by blast
    then show ?thesis by (rule footer_needs_star)
  next
    case 2
    then show ?thesis using footer_no_match_bare[OF I ws] by simp
  qed
qed



lemma prefix_before_nl:
  assumes "us @ CHR ''\<newline>'' # y = k @ r" "CHR ''\<newline>'' \<notin> set k"
  shows "\<exists>r'. us = k @ r'"
proof -
  from assms(1) obtain zs where
    "(us = k @ zs \<and> zs @ CHR ''\<newline>'' # y = r) \<or> (us @ zs = k \<and> CHR ''\<newline>'' # y = zs @ r)"
    unfolding append_eq_append_conv2 by blast
  then show ?thesis
  proof
    assume "us = k @ zs \<and> zs @ CHR ''\<newline>'' # y = r"
    then show ?thesis by blast
  next
    assume a: "us @ zs = k \<and> CHR ''\<newline>'' # y = zs @ r"
    show ?thesis
    proof (cases zs)
      case Nil
      with a show ?thesis by simp
    next
      case (Cons z zs')
      with a have "z = CHR ''\<newline>''" by simp
      with Cons a have "CHR ''\<newline>'' \<in> set k" by auto
      with assms(2) show ?thesis by simp
    qed
  qed
qed

lemma marker_no_nl:
  "id_ok i \<Longrightarrow> CHR ''\<newline>'' \<notin> set (''<!-- Note ID: '' @ i @ '' -->'')"
  using id_ok_no_nl[of i] by simp

lemma standalone_no_match:
  assumes "dropWhile (\<lambda>c. c = CHR ''\<newline>'') s = c # r" "c \<noteq> CHR ''<''"
  shows "ms standalonePattern s = []"
proof (rule ccontr)
  assume "ms standalonePattern s \<noteq> []"
  then obtain m t where s: "s = m @ t" and mt: "mt standalonePattern m t"
    by (auto simp: ms_nonempty_iff)
  from standalone_mtD[OF mt] obtain n i ws where
    n: "\<forall>c\<in>set n. c = CHR ''\<newline>''" and m: "m = n @ ''<!-- Note ID: '' @ i @ '' -->'' @ ws"
    by blast
  have "s = n @ CHR ''<'' # (''!-- Note ID: '' @ i @ '' -->'' @ ws @ t)" using s m by simp
  then have "dropWhile (\<lambda>c. c = CHR ''\<newline>'') s = CHR ''<'' # (''!-- Note ID: '' @ i @ '' -->'' @ ws @ t)"
    using n by (simp add: dropWhile_append2)
  with assms show False by simp
qed

lemma standalone_no_match_Nil: "ms standalonePattern [] = []"
  by (simp add: standalonePattern_def)

lemma standalone_no_early:
  assumes nm: "no_match noteIdPattern B" and D: "suffix D B"
    and Y: "dropWhile (\<lambda>c. c = CHR ''\<newline>'') (CHR ''\<newline>'' # Y) = c # r" "c \<noteq> CHR ''<''"
  shows "ms standalonePattern (D @ CHR ''\<newline>'' # Y) = []"
proof (rule ccontr)
  assume "ms standalonePattern (D @ CHR ''\<newline>'' # Y) \<noteq> []"
  then obtain m t where s: "D @ CHR ''\<newline>'' # Y = m @ t" and mt: "mt standalonePattern m t"
    by (auto simp: ms_nonempty_iff)
  from standalone_mtD[OF mt] obtain n i ws where i: "id_ok i" and
    n: "\<forall>c\<in>set n. c = CHR ''\<newline>''" and m: "m = n @ ''<!-- Note ID: '' @ i @ '' -->'' @ ws"
    by blast
  let ?M = "''<!-- Note ID: '' @ i @ '' -->''"
  have "D @ CHR ''\<newline>'' # Y = n @ (?M @ ws @ t)" using s m by simp
  then obtain us where
    "(D = n @ us \<and> us @ CHR ''\<newline>'' # Y = ?M @ ws @ t) \<or>
     (D @ us = n \<and> CHR ''\<newline>'' # Y = us @ ?M @ ws @ t)"
    unfolding append_eq_append_conv2 by blast
  then show False
  proof
    assume a: "D = n @ us \<and> us @ CHR ''\<newline>'' # Y = ?M @ ws @ t"
    then have "us @ CHR ''\<newline>'' # Y = ?M @ (ws @ t)" by simp
    from prefix_before_nl[OF this marker_no_nl[OF i]] obtain r' where "us = ?M @ r'" by blast
    with a have "D = n @ ?M @ r'" by simp
    moreover from D obtain pre where "B = pre @ D" by (auto simp: suffix_def)
    ultimately have "B = (pre @ n) @ ''<!-- Note ID: '' @ i @ '' -->'' @ r'" by simp
    with no_marker_inside[OF nm i] show False by blast
  next
    assume a: "D @ us = n \<and> CHR ''\<newline>'' # Y = us @ ?M @ ws @ t"
    then have "n = D @ us" by simp
    then have us: "\<forall>c\<in>set us. c = CHR ''\<newline>''" using n by simp
    from a have "CHR ''\<newline>'' # Y = us @ CHR ''<'' # (''!-- Note ID: '' @ i @ '' -->'' @ ws @ t)" by simp
    then have "dropWhile (\<lambda>c. c = CHR ''\<newline>'') (CHR ''\<newline>'' # Y) =
               dropWhile (\<lambda>c. c = CHR ''\<newline>'') (us @ CHR ''<'' # (''!-- Note ID: '' @ i @ '' -->'' @ ws @ t))"
      by (rule arg_cong)
    also have "\<dots> = CHR ''<'' # (''!-- Note ID: '' @ i @ '' -->'' @ ws @ t)"
      using us by (simp add: dropWhile_append2)
    finally show False using Y by simp
  qed
qed

lemma replace_all_miss: "ms r (c # s) = [] \<Longrightarrow> replace_all r rep (c # s) = c # replace_all r rep s"
  by (simp add: replace_all.simps[of r rep "c # s"])

lemma replace_all_hit:
  "ms r s = t # ts \<Longrightarrow> length t < length s \<Longrightarrow> replace_all r rep s = rep @ replace_all r rep t"
  by (simp add: replace_all.simps[of r rep s])

lemma standalone_bare_marker:
  assumes nm: "no_match noteIdPattern B" and I: "id_ok I" and ws: "\<forall>c\<in>set ws. is_space c"
  shows "replace_all standalonePattern []
           (B @ ''\<newline>\<newline>---\<newline>'' @ ''<!-- Note ID: '' @ I @ '' -->'' @ ws) = B @ ''\<newline>\<newline>---''"
proof -
  let ?M = "''<!-- Note ID: '' @ I @ '' -->'' @ ws"
  let ?r = "replace_all standalonePattern []"
  have skip: "?r (B @ ''\<newline>\<newline>---\<newline>'' @ ?M) = B @ ?r (''\<newline>\<newline>---\<newline>'' @ ?M)"
  proof (rule replace_all_skip)
    fix D assume "D \<noteq> []" "suffix D B"
    have "ms standalonePattern (D @ CHR ''\<newline>'' # (''\<newline>---\<newline>'' @ ?M)) = []"
      by (rule standalone_no_early[OF nm \<open>suffix D B\<close>, where c = "CHR ''-''"]) simp_all
    then show "ms standalonePattern (D @ ''\<newline>\<newline>---\<newline>'' @ ?M) = []" by simp
  qed
  have m0: "ms standalonePattern (CHR ''\<newline>'' # ''\<newline>---\<newline>'' @ ?M) = []"
    by (rule standalone_no_match[where c = "CHR ''-''"]) simp_all
  have m1: "ms standalonePattern (CHR ''\<newline>'' # ''---\<newline>'' @ ?M) = []"
    by (rule standalone_no_match[where c = "CHR ''-''"]) simp_all
  have m2: "ms standalonePattern (CHR ''-'' # ''--\<newline>'' @ ?M) = []"
    by (rule standalone_no_match[where c = "CHR ''-''"]) simp_all
  have m3: "ms standalonePattern (CHR ''-'' # ''-\<newline>'' @ ?M) = []"
    by (rule standalone_no_match[where c = "CHR ''-''"]) simp_all
  have m4: "ms standalonePattern (CHR ''-'' # ''\<newline>'' @ ?M) = []"
    by (rule standalone_no_match[where c = "CHR ''-''"]) simp_all
  have "\<forall>c\<in>set ''\<newline>''. c = CHR ''\<newline>''" "[] = [] \<or> \<not> is_space (hd [])" by simp_all
  from standalone_first[OF I ws this] obtain ts where
    hit: "ms standalonePattern (''\<newline>'' @ ?M) = [] # ts" by auto
  have "?r (''\<newline>'' @ ?M) = [] @ ?r []"
    by (rule replace_all_hit[OF hit]) simp
  also have "\<dots> = []" by (simp add: replace_all.simps[of _ _ "[]"] standalone_no_match_Nil)
  finally have last: "?r (''\<newline>'' @ ?M) = []" .
  have "?r (''\<newline>\<newline>---\<newline>'' @ ?M) = ''\<newline>\<newline>---'' @ ?r (''\<newline>'' @ ?M)"
    using replace_all_miss[OF m0] replace_all_miss[OF m1] replace_all_miss[OF m2]
      replace_all_miss[OF m3] replace_all_miss[OF m4]
    by simp
  with skip last show ?thesis by simp
qed

lemma not_space_dash: "\<not> is_space (CHR ''-'')"
  by (simp add: is_space_def)

lemma separator_hit:
  assumes "ms separatorPattern s \<noteq> []"
  shows "\<exists>ts. ms separatorPattern s = [] # ts"
proof -
  from assms obtain t ts where ms: "ms separatorPattern s = t # ts"
    by (cases "ms separatorPattern s") simp_all
  then have "t \<in> set (ms separatorPattern s)" by simp
  then obtain m where "mt separatorPattern m t" by (auto simp: ms_set)
  from separator_mtD[OF this] have "t = []" by simp
  with ms show ?thesis by simp
qed

lemma separator_removed:
  "replace_all separatorPattern [] (B @ ''\<newline>\<newline>---'') = B"
proof -
  let ?r = "replace_all separatorPattern []"
  have skip: "?r (B @ ''\<newline>\<newline>---'') = B @ ?r ''\<newline>\<newline>---''"
  proof (rule replace_all_skip)
    fix D :: string assume D: "D \<noteq> []"
    show "ms separatorPattern (D @ ''\<newline>\<newline>---'') = []"
    proof (rule ccontr)
      assume "ms separatorPattern (D @ ''\<newline>\<newline>---'') \<noteq> []"
      then obtain m t where s: "D @ ''\<newline>\<newline>---'' = m @ t" and mt: "mt separatorPattern m t"
        by (auto simp: ms_nonempty_iff)
      from separator_mtD[OF mt] obtain ws where t: "t = []" and
        ws: "\<forall>c\<in>set ws. is_space c" and m: "m = ''\<newline>\<newline>---'' @ ws" by blast
      have "CHR ''-'' \<notin> set ws" using ws not_space_dash by blast
      moreover have "(D @ ''\<newline>\<newline>--'') @ CHR ''-'' # [] = ''\<newline>\<newline>--'' @ CHR ''-'' # ws"
        using s t m by simp
      ultimately have "D @ ''\<newline>\<newline>--'' = ''\<newline>\<newline>--''"
        using split_last[of "CHR ''-''" "[]" ws "D @ ''\<newline>\<newline>--''" "''\<newline>\<newline>--''"] by simp
      with D show False by simp
    qed
  qed
  have "mt separatorPattern (''\<newline>\<newline>---'' @ []) []" by (rule separator_mtI) simp
  then have "ms separatorPattern ''\<newline>\<newline>---'' \<noteq> []" by (rule ms_nonemptyI[rotated]) simp
  from separator_hit[OF this] obtain ts where hit: "ms separatorPattern ''\<newline>\<newline>---'' = [] # ts"
    by blast
  have none: "ms separatorPattern [] = []" by (simp add: separatorPattern_def)
  have "?r ''\<newline>\<newline>---'' = [] @ ?r []" by (rule replace_all_hit[OF hit]) simp
  also have "\<dots> = []" using none by (simp add: replace_all.simps[of _ _ "[]"])
  finally show ?thesis using skip by simp
qed

lemma strip_bare_marker:
  assumes B: "detectNoteId B = None" and I: "id_ok I" and ws: "\<forall>c\<in>set ws. is_space c"
  shows "Create_stripExistingFooter
           (B @ ''\<newline>\<newline>---\<newline>'' @ ''<!-- Note ID: '' @ I @ '' -->'' @ ws) = normalize B"
proof -
  have nm: "no_match noteIdPattern B" using B by (simp add: detect_None_iff)
  show ?thesis
    unfolding Create_stripExistingFooter_def Let_def
      replace_first_no_match[OF footer_absent_bare[OF I ws]]
      standalone_bare_marker[OF nm I ws] separator_removed
    by (rule replace_newlines_normalize)
qed


text \<open>
  C5 as stated fails for one of the four combinations: a footer with a Last-Updated
  line and no Created line is not removed (the footer pattern requires the Created
  line; only the marker goes).
\<close>

theorem strip_updated_only_counterexample:
  "Create_stripExistingFooter
     (''Hello'' @ ''\<newline>\<newline>---\<newline>*Last Updated: '' @ ''Y'' @ ''*\<newline>'' @
      ''<!-- Note ID: '' @ ''AB-1'' @ '' -->'') = ''Hello\<newline>\<newline>---\<newline>*Last Updated: Y*'' \<and>
   UpdateText_stripExistingFooter
     (''Hello'' @ ''\<newline>\<newline>---\<newline>*Last Updated: '' @ ''Y'' @ ''*\<newline>'' @
      ''<!-- Note ID: '' @ ''AB-1'' @ '' -->'') \<noteq> ''Hello''"
  by code_simp


text \<open>
  C5, as the code has it. A body without marker that does not end in a bare
  separator, followed by a blank line, a \<open>---\<close> line, then Created and Last-Updated
  lines, or a Created line alone, or no timestamp line, then the marker line and
  any trailing whitespace, is stripped to the body, normalised to at most one
  trailing newline: the whole footer block is removed.
\<close>



theorem strip_removes_trailing_footer:
  assumes B: "detectNoteId B = None" "find_match separatorPattern B = None"
    and ts: "CHR ''\<newline>'' \<notin> set ts1" "CHR ''\<newline>'' \<notin> set ts2"
    and I: "id_ok I" and ws: "list_all is_space ws"
  shows "Create_stripExistingFooter
           (B @ ''\<newline>\<newline>---\<newline>*Created: '' @ ts1 @ ''*\<newline>*Last Updated: '' @ ts2 @ ''*\<newline>'' @
            ''<!-- Note ID: '' @ I @ '' -->'' @ ws) = normalize B \<and>
         Create_stripExistingFooter
           (B @ ''\<newline>\<newline>---\<newline>*Created: '' @ ts1 @ ''*\<newline>'' @
            ''<!-- Note ID: '' @ I @ '' -->'' @ ws) = normalize B \<and>
         Create_stripExistingFooter
           (B @ ''\<newline>\<newline>---\<newline>'' @ ''<!-- Note ID: '' @ I @ '' -->'' @ ws) = normalize B"
proof -
  have sp: "\<forall>c\<in>set ws. is_space c" using ws by (simp add: list_all_iff)
  let ?x1 = "'' '' @ ts1 @ ''*''"
  let ?x2 = "'' '' @ ts2 @ ''*''"
  have x1: "CHR ''\<newline>'' \<notin> set ?x1" and x2: "CHR ''\<newline>'' \<notin> set ?x2" using ts by simp_all
  have g2: "''*Last Updated:'' @ ?x2 @ ''\<newline>'' = [] \<or>
           (\<exists>x. ''*Last Updated:'' @ ?x2 @ ''\<newline>'' = ''*Last Updated:'' @ x @ ''\<newline>'' \<and>
                 CHR ''\<newline>'' \<notin> set x)"
    using x2 by blast
  have g0: "([]::string) = [] \<or>
           (\<exists>x. ([]::string) = ''*Last Updated:'' @ x @ ''\<newline>'' \<and> CHR ''\<newline>'' \<notin> set x)"
    by simp
  have "Create_stripExistingFooter
          (B @ ''\<newline>\<newline>---\<newline>*Created:'' @ ?x1 @ ''\<newline>'' @ (''*Last Updated:'' @ ?x2 @ ''\<newline>'') @
           ''<!-- Note ID: '' @ I @ '' -->'' @ ws) = normalize B"
    by (rule strip_with_footer[OF B x1 g2 I sp])
  then have one: "Create_stripExistingFooter
           (B @ ''\<newline>\<newline>---\<newline>*Created: '' @ ts1 @ ''*\<newline>*Last Updated: '' @ ts2 @ ''*\<newline>'' @
            ''<!-- Note ID: '' @ I @ '' -->'' @ ws) = normalize B"
    by simp
  have "Create_stripExistingFooter
          (B @ ''\<newline>\<newline>---\<newline>*Created:'' @ ?x1 @ ''\<newline>'' @ [] @
           ''<!-- Note ID: '' @ I @ '' -->'' @ ws) = normalize B"
    by (rule strip_with_footer[OF B x1 g0 I sp])
  then have two: "Create_stripExistingFooter
           (B @ ''\<newline>\<newline>---\<newline>*Created: '' @ ts1 @ ''*\<newline>'' @
            ''<!-- Note ID: '' @ I @ '' -->'' @ ws) = normalize B"
    by simp
  have three: "Create_stripExistingFooter
           (B @ ''\<newline>\<newline>---\<newline>'' @ ''<!-- Note ID: '' @ I @ '' -->'' @ ws) = normalize B"
    by (rule strip_bare_marker[OF B(1) I sp])
  from one two three show ?thesis by blast
qed

theorem strip_removes_trailing_footer_witness:
  "Create_stripExistingFooter
     (''Hello'' @ ''\<newline>\<newline>---\<newline>*Created: '' @ ''X'' @ ''*\<newline>*Last Updated: '' @ ''Y'' @ ''*\<newline>'' @
      ''<!-- Note ID: '' @ ''AB-1'' @ '' -->'' @ '' \<newline>'') = ''Hello'' \<and>
   Create_stripExistingFooter
     (''Hello'' @ ''\<newline>\<newline>---\<newline>*Created: '' @ ''X'' @ ''*\<newline>'' @
      ''<!-- Note ID: '' @ ''AB-1'' @ '' -->'' @ '' \<newline>'') = ''Hello'' \<and>
   Create_stripExistingFooter
     (''Hello'' @ ''\<newline>\<newline>---\<newline>'' @ ''<!-- Note ID: '' @ ''AB-1'' @ '' -->'' @ '' \<newline>'') = ''Hello''"
proof -
  have a: "detectNoteId ''Hello'' = None" by code_simp
  have b: "find_match separatorPattern ''Hello'' = None" by code_simp
  have c: "CHR ''\<newline>'' \<notin> set ''X''" "CHR ''\<newline>'' \<notin> set ''Y''" by simp_all
  have d: "id_ok ''AB-1''" by code_simp
  have e: "list_all is_space '' \<newline>''" by code_simp
  have f: "normalize ''Hello'' = ''Hello''" by code_simp
  show ?thesis using strip_removes_trailing_footer[OF a b c d e] unfolding f .
qed


section \<open>Stray markers\<close>

lemma replace_first_cases:
  "replace_first r rep s = s \<or>
   (\<exists>x y t ts. s = x @ y \<and> ms r y = t # ts \<and> replace_first r rep s = x @ rep @ t)"
proof (induction s)
  case Nil
  show ?case
  proof (cases "ms r []")
    case Nil
    then show ?thesis by simp
  next
    case (Cons t ts)
    then have "[] = [] @ [] \<and> ms r [] = t # ts \<and> replace_first r rep [] = [] @ rep @ t" by simp
    then show ?thesis
      by (intro disjI2 exI[of _ "[]"] exI[of _ t] exI[of _ ts])
  qed
next
  case (Cons c s)
  show ?case
  proof (cases "ms r (c # s)")
    case Nil
    from Cons.IH show ?thesis
    proof
      assume "replace_first r rep s = s"
      with Nil show ?thesis by simp
    next
      assume "\<exists>x y t ts. s = x @ y \<and> ms r y = t # ts \<and> replace_first r rep s = x @ rep @ t"
      then obtain x y t ts where "s = x @ y" "ms r y = t # ts" "replace_first r rep s = x @ rep @ t"
        by blast
      with Nil have "c # s = (c # x) @ y \<and> ms r y = t # ts \<and>
          replace_first r rep (c # s) = (c # x) @ rep @ t" by simp
      then show ?thesis
        by (intro disjI2 exI[of _ "c # x"] exI[of _ y] exI[of _ t] exI[of _ ts])
    qed
  next
    case (Cons t ts)
    then have "c # s = [] @ (c # s) \<and> ms r (c # s) = t # ts \<and>
        replace_first r rep (c # s) = [] @ rep @ t" by simp
    then show ?thesis
      by (intro disjI2 exI[of _ "[]"] exI[of _ "c # s"] exI[of _ t] exI[of _ ts])
  qed
qed

lemma standalone_mtI:
  assumes "id_ok i"
  shows "mt standalonePattern ([] @ ''<!-- Note ID: '' @ i @ '' -->'' @ []) t"
  unfolding standalonePattern_alt
proof (rule mt_SeqI[where ?m1.0 = "[]" and ?m2.0 = "''<!-- Note ID: '' @ i @ '' -->'' @ []"])
  show "mt (Seq (Str ''<!-- Note ID: '') (Seq (Plus IdChar) (Seq (Str '' -->'') (Star Space))))
          (''<!-- Note ID: '' @ i @ '' -->'' @ []) t"
  proof (rule mt_SeqI[where ?m1.0 = "''<!-- Note ID: ''" and ?m2.0 = "i @ '' -->'' @ []"])
    show "mt (Seq (Plus IdChar) (Seq (Str '' -->'') (Star Space))) (i @ '' -->'' @ []) t"
    proof (rule mt_SeqI[where ?m1.0 = i and ?m2.0 = "'' -->'' @ []"])
      show "mt (Plus IdChar) i (('' -->'' @ []) @ t)" using assms by (simp add: id_ok_iff)
      show "mt (Seq (Str '' -->'') (Star Space)) ('' -->'' @ []) t"
        by (rule mt_SeqI[where ?m1.0 = "'' -->''" and ?m2.0 = "[]"]) simp_all
    qed simp
  qed simp_all
qed simp_all

lemma marker_gives_standalone:
  assumes "ms noteIdPattern s \<noteq> []"
  shows "ms standalonePattern s \<noteq> []"
proof -
  from assms obtain m t where s: "s = m @ t" and mt: "mt noteIdPattern m t"
    by (auto simp: ms_nonempty_iff)
  from marker_mtD[OF mt] obtain i where i: "id_ok i" and m: "m = ''<!-- Note ID: '' @ i @ '' -->''"
    by blast
  have "s = ([] @ ''<!-- Note ID: '' @ i @ '' -->'' @ []) @ t" using s m by simp
  then show ?thesis using standalone_mtI[OF i] by (rule ms_nonemptyI)
qed

lemma standalone_match_shorter:
  assumes "ms standalonePattern s = t # ts"
  shows "length t < length s \<and> suffix t s"
proof -
  from assms have "t \<in> set (ms standalonePattern s)" by simp
  then obtain m where s: "s = m @ t" and mt: "mt standalonePattern m t" by (auto simp: ms_set)
  from standalone_mtD[OF mt] obtain n i ws where
    "m = n @ ''<!-- Note ID: '' @ i @ '' -->'' @ ws" by blast
  then have "m \<noteq> []" by simp
  with s show ?thesis by (simp add: suffix_def)
qed

subsection \<open>The beginning of a marker\<close>

lemma tail_prefix_keeps:
  assumes "prefix vs '' -->''" shows "dropWhile is_id_char vs = vs"
proof (cases vs)
  case Nil
  then show ?thesis by simp
next
  case (Cons c vs')
  with assms have "c = CHR '' ''" by simp
  with Cons not_id_char_space show ?thesis by simp
qed

lemma begins_markerI:
  assumes q: "q \<noteq> []" and i: "id_ok i" and eq: "q @ r = ''<!-- Note ID: '' @ i @ '' -->''"
  shows "begins_marker q"
proof -
  from eq obtain us where
    us: "(q = ''<!-- Note ID: '' @ us \<and> us @ r = i @ '' -->'') \<or>
         (q @ us = ''<!-- Note ID: '' \<and> r = us @ i @ '' -->'')"
    unfolding append_eq_append_conv2 by blast
  show ?thesis
  proof (cases "length q \<le> length ''<!-- Note ID: ''")
    case True
    from us have "prefix q ''<!-- Note ID: ''"
    proof
      assume a: "q = ''<!-- Note ID: '' @ us \<and> us @ r = i @ '' -->''"
      with True have "us = []" by simp
      with a show ?thesis by simp
    next
      assume "q @ us = ''<!-- Note ID: '' \<and> r = us @ i @ '' -->''"
      then have "''<!-- Note ID: '' = q @ us" by simp
      then show ?thesis by (rule prefixI)
    qed
    with q True show ?thesis unfolding begins_marker_def by simp
  next
    case False
    from us have a: "q = ''<!-- Note ID: '' @ us" and b: "us @ r = i @ '' -->''"
    proof -
      have "\<not> (q @ us = ''<!-- Note ID: '' \<and> r = us @ i @ '' -->'')"
      proof
        assume "q @ us = ''<!-- Note ID: '' \<and> r = us @ i @ '' -->''"
        then have "length (q @ us) = length ''<!-- Note ID: ''" by simp
        with False show False by simp
      qed
      with us show "q = ''<!-- Note ID: '' @ us" and "us @ r = i @ '' -->''" by blast+
    qed
    from b obtain vs where
      vs: "(us = i @ vs \<and> vs @ r = '' -->'') \<or> (us @ vs = i \<and> r = vs @ '' -->'')"
      unfolding append_eq_append_conv2 by blast
    have idc: "\<forall>c\<in>set i. is_id_char c" using i by (simp add: id_ok_def list_all_iff)
    have ine: "i \<noteq> []" using i by (simp add: id_ok_def)
    let ?w = "dropWhile is_id_char us"
    have w: "?w = [] \<or> (?w \<noteq> us \<and> prefix ?w '' -->'')"
      using vs
    proof
      assume c: "us @ vs = i \<and> r = vs @ '' -->''"
      then have "set us \<subseteq> set i" by auto
      with idc have "\<forall>c\<in>set us. is_id_char c" by blast
      then have "?w = []" by simp
      then show ?thesis by simp
    next
      assume c: "us = i @ vs \<and> vs @ r = '' -->''"
      then have "'' -->'' = vs @ r" by simp
      then have pv: "prefix vs '' -->''" by (rule prefixI)
      have dw: "?w = dropWhile is_id_char vs" using c idc by (simp add: dropWhile_append)
      with tail_prefix_keeps[OF pv] have wv: "?w = vs" by simp
      have "vs \<noteq> us" using c ine by simp
      with wv pv show ?thesis by simp
    qed
    have p: "prefix ''<!-- Note ID: '' q" using a by (simp add: prefix_def)
    have d: "drop (length ''<!-- Note ID: '') q = us" using a by simp
    show ?thesis
      unfolding begins_marker_def Let_def d
      using q False p w by simp
  qed
qed

lemma id_ok_A: "id_ok ''A''"
  by (simp add: id_ok_def is_id_char_def)

lemma begins_markerD:
  assumes "begins_marker q"
  shows "\<exists>i r. id_ok i \<and> q @ r = ''<!-- Note ID: '' @ i @ '' -->''"
proof (cases "length q \<le> length ''<!-- Note ID: ''")
  case True
  with assms have "prefix q ''<!-- Note ID: ''" by (simp add: begins_marker_def)
  then obtain us where us: "''<!-- Note ID: '' = q @ us" by (auto simp: prefix_def)
  have "id_ok ''A'' \<and> q @ (us @ ''A'' @ '' -->'') = ''<!-- Note ID: '' @ ''A'' @ '' -->''"
    using id_ok_A us by simp
  then show ?thesis by (intro exI[of _ "''A''"] exI[of _ "us @ ''A'' @ '' -->''"])
next
  case False
  define r' where "r' = drop (length ''<!-- Note ID: '') q"
  define w where "w = dropWhile is_id_char r'"
  define i where "i = takeWhile is_id_char r'"
  from assms False have p: "prefix ''<!-- Note ID: '' q"
    and w: "w = [] \<or> (w \<noteq> r' \<and> prefix w '' -->'')"
    unfolding w_def r'_def by (simp_all add: begins_marker_def Let_def)
  from p obtain x where "q = ''<!-- Note ID: '' @ x" unfolding prefix_def by blast
  then have q: "q = ''<!-- Note ID: '' @ r'" unfolding r'_def by simp
  from False q have ne: "r' \<noteq> []" by auto
  have split: "r' = i @ w" unfolding i_def w_def by simp
  have idc: "list_all is_id_char i" unfolding list_all_iff i_def using set_takeWhileD by fast
  from w show ?thesis
  proof
    assume "w = []"
    with split have "r' = i" by simp
    with ne idc have "id_ok r'" by (simp add: id_ok_def)
    moreover have "q @ '' -->'' = ''<!-- Note ID: '' @ r' @ '' -->''" using q by simp
    ultimately have "id_ok r' \<and> q @ '' -->'' = ''<!-- Note ID: '' @ r' @ '' -->''"
      by simp
    then show ?thesis by (intro exI[of _ r'] exI[of _ "'' -->''"])
  next
    assume w1: "w \<noteq> r' \<and> prefix w '' -->''"
    then have "w \<noteq> r'" by (rule conjunct1)
    with split have "i \<noteq> []" by auto
    with idc have i: "id_ok i" by (simp add: id_ok_def)
    from w1 have "prefix w '' -->''" by (rule conjunct2)
    then obtain r where r: "'' -->'' = w @ r" unfolding prefix_def by (elim exE)
    have "q @ r = ''<!-- Note ID: '' @ i @ (w @ r)" using q split by simp
    also have "\<dots> = ''<!-- Note ID: '' @ i @ '' -->''" by (simp only: r[symmetric])
    finally have "id_ok i \<and> q @ r = ''<!-- Note ID: '' @ i @ '' -->''"
      using i by simp
    then show ?thesis by (intro exI[of _ i] exI[of _ r])
  qed
qed

lemma begins_marker_iff:
  "begins_marker q \<longleftrightarrow>
   q \<noteq> [] \<and> (\<exists>i r. id_ok i \<and> q @ r = ''<!-- Note ID: '' @ i @ '' -->'')"
proof
  assume a: "begins_marker q"
  then have "q \<noteq> []" by (simp add: begins_marker_def)
  with begins_markerD[OF a] show "q \<noteq> [] \<and>
    (\<exists>i r. id_ok i \<and> q @ r = ''<!-- Note ID: '' @ i @ '' -->'')" by simp
next
  assume "q \<noteq> [] \<and> (\<exists>i r. id_ok i \<and> q @ r = ''<!-- Note ID: '' @ i @ '' -->'')"
  then obtain i r where "q \<noteq> []" "id_ok i" "q @ r = ''<!-- Note ID: '' @ i @ '' -->''"
    by blast
  then show "begins_marker q" by (rule begins_markerI)
qed

lemma begins_butlast: "begins_marker (q @ [c]) \<Longrightarrow> q \<noteq> [] \<Longrightarrow> begins_marker q"
proof -
  assume a: "begins_marker (q @ [c])" and q: "q \<noteq> []"
  then obtain i r where i: "id_ok i" and "(q @ [c]) @ r = ''<!-- Note ID: '' @ i @ '' -->''"
    unfolding begins_marker_iff by blast
  then have "q @ (c # r) = ''<!-- Note ID: '' @ i @ '' -->''" by simp
  with i q show ?thesis unfolding begins_marker_iff by blast
qed

lemma continues_marker_iff:
  "continues_marker u d \<longleftrightarrow> (\<exists>q. q \<noteq> [] \<and> suffix q u \<and> begins_marker (q @ [d]))"
  unfolding continues_marker_def list_ex_iff by (auto simp: in_set_suffixes)

lemma markers_apart_from_iff:
  "markers_apart_from u s \<longleftrightarrow>
   (\<forall>x y t ts. s = x @ y \<longrightarrow> ms standalonePattern y = t # ts \<longrightarrow> rest_ok (u @ x) t)"
proof (induction s arbitrary: u)
  case Nil
  then show ?case by (simp add: standalone_no_match_Nil)
next
  case (Cons c s)
  have h: "(case ms standalonePattern (c # s) of [] \<Rightarrow> True | t # _ \<Rightarrow> rest_ok u t) \<longleftrightarrow>
       (\<forall>t ts. ms standalonePattern (c # s) = t # ts \<longrightarrow> rest_ok u t)"
    by (cases "ms standalonePattern (c # s)") simp_all
  show ?case
  proof
    assume a: "markers_apart_from u (c # s)"
    then have h1: "\<forall>t ts. ms standalonePattern (c # s) = t # ts \<longrightarrow> rest_ok u t"
      and t: "markers_apart_from (u @ [c]) s" using h by simp_all
    show "\<forall>x y t ts. c # s = x @ y \<longrightarrow> ms standalonePattern y = t # ts \<longrightarrow> rest_ok (u @ x) t"
    proof (intro allI impI)
      fix x y t ts assume xy: "c # s = x @ y" and m: "ms standalonePattern y = t # ts"
      show "rest_ok (u @ x) t"
      proof (cases x)
        case Nil
        with xy m h1 show ?thesis by simp
      next
        case (Cons d x')
        with xy have "d = c" "s = x' @ y" by simp_all
        with t m Cons.IH[of "u @ [c]"] have "rest_ok ((u @ [c]) @ x') t" by blast
        with Cons \<open>d = c\<close> show ?thesis by simp
      qed
    qed
  next
    assume a: "\<forall>x y t ts. c # s = x @ y \<longrightarrow> ms standalonePattern y = t # ts \<longrightarrow> rest_ok (u @ x) t"
    have h1: "\<forall>t ts. ms standalonePattern (c # s) = t # ts \<longrightarrow> rest_ok u t"
      using a[rule_format, of "[]" "c # s"] by simp
    have "\<forall>x y t ts. s = x @ y \<longrightarrow> ms standalonePattern y = t # ts \<longrightarrow> rest_ok ((u @ [c]) @ x) t"
    proof (intro allI impI)
      fix x y t ts assume "s = x @ y" "ms standalonePattern y = t # ts"
      with a[rule_format, of "c # x" y t ts] show "rest_ok ((u @ [c]) @ x) t" by simp
    qed
    then have "markers_apart_from (u @ [c]) s" by (simp only: Cons.IH)
    with h1 h show "markers_apart_from u (c # s)" by simp
  qed
qed

subsection \<open>The scan that deletes the markers\<close>

lemma after_matches_miss: "ms standalonePattern s = [] \<Longrightarrow> after_matches s = s"
  by (simp add: after_matches.simps[of s])

lemma after_matches_hit: "ms standalonePattern s = t # ts \<Longrightarrow> after_matches s = after_matches t"
  using standalone_match_shorter[of s t ts] by (simp add: after_matches.simps[of s])

lemma rest_ok_pending:
  assumes "rest_ok u t" "q \<noteq> []" "suffix q u" shows "pending q t"
proof (cases "after_matches t")
  case Nil
  then show ?thesis by (simp add: pending_def)
next
  case (Cons d t')
  with assms(1) have "\<not> continues_marker u d" by (simp add: rest_ok_def)
  with assms(2,3) have "\<not> begins_marker (q @ [d])" unfolding continues_marker_iff by blast
  with Cons show ?thesis by (simp add: pending_def)
qed

lemma pending_miss:
  assumes "pending q (c # s)" "ms standalonePattern (c # s) = []"
  shows "\<not> begins_marker (q @ [c])"
  using assms by (simp add: pending_def after_matches_miss)

lemma pending_hit:
  assumes "pending q s" "ms standalonePattern s = t # ts" shows "pending q t"
  using assms by (simp add: pending_def after_matches_hit)

lemma standalone_any_rest: "mt standalonePattern m t \<Longrightarrow> mt standalonePattern m t'"
  by (simp add: standalonePattern_def)

lemma standalone_match_extends:
  assumes "ms standalonePattern y \<noteq> []" shows "ms standalonePattern (y @ z) \<noteq> []"
proof -
  from assms obtain m t where y: "y = m @ t" and mt: "mt standalonePattern m t"
    by (auto simp: ms_nonempty_iff)
  from mt have "mt standalonePattern m (t @ z)" by (rule standalone_any_rest)
  moreover have "y @ z = m @ (t @ z)" using y by simp
  ultimately show ?thesis by (rule ms_nonemptyI[rotated])
qed

lemma marker_match_extends:
  assumes "ms noteIdPattern y \<noteq> []" shows "ms standalonePattern (y @ z) \<noteq> []"
  using standalone_match_extends[OF marker_gives_standalone[OF assms]] .

lemma marker_at_end:
  assumes A: "no_match noteIdPattern p" and B: "\<not> no_match noteIdPattern (p @ [c])"
  shows "\<exists>q. q \<noteq> [] \<and> suffix q p \<and> begins_marker q \<and> begins_marker (q @ [c]) \<and>
             ms noteIdPattern (q @ [c]) \<noteq> []"
proof -
  from B obtain v where v: "suffix v (p @ [c])" and m: "ms noteIdPattern v \<noteq> []"
    unfolding no_match_def by blast
  from m obtain M t where vm: "v = M @ t" and mt: "mt noteIdPattern M t"
    by (auto simp: ms_nonempty_iff)
  from marker_mtD[OF mt] obtain i where i: "id_ok i" and M: "M = ''<!-- Note ID: '' @ i @ '' -->''"
    by blast
  have t: "t = []"
  proof (rule ccontr)
    assume "t \<noteq> []"
    then obtain t0 d where t0: "t = t0 @ [d]" by (cases t rule: rev_cases) simp_all
    with v vm have "suffix ((M @ t0) @ [d]) (p @ [c])" by simp
    then have "suffix (M @ t0) p" by (simp only: snoc_suffix_snoc)
    moreover have "ms noteIdPattern (M @ t0) \<noteq> []" using marker_match[OF i, of t0] M by simp
    ultimately show False using A unfolding no_match_def by blast
  qed
  let ?q = "''<!-- Note ID: '' @ i @ '' --''"
  have Mq: "M = ?q @ ''>''" using M by simp
  with v vm t have "suffix (?q @ [CHR ''>'']) (p @ [c])" by simp
  then have c: "CHR ''>'' = c" and sq: "suffix ?q p" by (simp_all only: snoc_suffix_snoc)
  have ne: "?q \<noteq> []" by simp
  have "?q @ ''>'' = ''<!-- Note ID: '' @ i @ '' -->''" by simp
  with ne i have b1: "begins_marker ?q" by (rule begins_markerI)
  have ne2: "?q @ [c] \<noteq> []" by simp
  have eq2: "(?q @ [c]) @ [] = ''<!-- Note ID: '' @ i @ '' -->''" using c by simp
  have b2: "begins_marker (?q @ [c])" using ne2 i eq2 by (rule begins_markerI)
  have "ms noteIdPattern (?q @ [c]) \<noteq> []" using m vm t Mq c by simp
  with ne sq b1 b2 show ?thesis by blast
qed

lemma standalone_scan:
  assumes "\<forall>x y t ts. s = x @ y \<longrightarrow> ms standalonePattern y = t # ts \<longrightarrow> rest_ok (u @ x) t"
    and "\<forall>q. q \<noteq> [] \<longrightarrow> suffix q p \<longrightarrow> begins_marker q \<longrightarrow>
           (suffix q u \<and> ms standalonePattern (q @ s) = []) \<or> pending q s"
    and "no_match noteIdPattern p"
  shows "no_match noteIdPattern (p @ replace_all standalonePattern [] s)"
  using assms
proof (induction standalonePattern "[]::string" s arbitrary: p u rule: replace_all.induct)
  case (1 s)
  note H = "1.prems"(1) and I = "1.prems"(2) and A = "1.prems"(3)
  show ?case
  proof (cases "ms standalonePattern s")
    case Nil
    show ?thesis
    proof (cases s)
      case Nil
      then have "replace_all standalonePattern [] s = []"
        by (simp add: replace_all_Nil_nomatch standalone_no_match_Nil)
      with A show ?thesis by simp
    next
      case (Cons c s')
      note miss = \<open>ms standalonePattern s = []\<close>
      have res: "replace_all standalonePattern [] s = c # replace_all standalonePattern [] s'"
        using miss unfolding Cons by (rule replace_all_miss)
      have step: "suffix q u \<and> ms standalonePattern (q @ s) = []"
        if "q \<noteq> []" "suffix q p" "begins_marker (q @ [c])" for q
      proof -
        from that(3,1) have "begins_marker q" by (rule begins_butlast)
        with I that(1,2) have "(suffix q u \<and> ms standalonePattern (q @ s) = []) \<or> pending q s"
          by blast
        moreover have "\<not> pending q s"
        proof
          assume "pending q s"
          then have "\<not> begins_marker (q @ [c])" using miss unfolding Cons by (rule pending_miss)
          with that(3) show False by simp
        qed
        ultimately show ?thesis by blast
      qed
      have H': "\<forall>x y t ts. s' = x @ y \<longrightarrow> ms standalonePattern y = t # ts \<longrightarrow>
                  rest_ok ((u @ [c]) @ x) t"
      proof (intro allI impI)
        fix x y t ts assume "s' = x @ y" "ms standalonePattern y = t # ts"
        with H[rule_format, of "c # x" y t ts] Cons show "rest_ok ((u @ [c]) @ x) t" by simp
      qed
      have I': "\<forall>q. q \<noteq> [] \<longrightarrow> suffix q (p @ [c]) \<longrightarrow> begins_marker q \<longrightarrow>
                 (suffix q (u @ [c]) \<and> ms standalonePattern (q @ s') = []) \<or> pending q s'"
      proof (intro allI impI)
        fix q assume ne: "q \<noteq> []" and suf: "suffix q (p @ [c])" and b: "begins_marker q"
        from ne obtain q0 d where q: "q = q0 @ [d]" by (cases q rule: rev_cases) simp_all
        with suf have d: "d = c" and s0: "suffix q0 p" by (simp_all only: snoc_suffix_snoc)
        have "suffix q (u @ [c]) \<and> ms standalonePattern (q @ s') = []"
        proof (cases "q0 = []")
          case True
          with q d miss Cons show ?thesis by (simp add: suffix_def)
        next
          case False
          from b q d have "begins_marker (q0 @ [c])" by simp
          from step[OF False s0 this] have "suffix q0 u" "ms standalonePattern (q0 @ s) = []"
            by simp_all
          then show ?thesis unfolding q d Cons by (simp only: snoc_suffix_snoc) simp
        qed
        then show "(suffix q (u @ [c]) \<and> ms standalonePattern (q @ s') = []) \<or> pending q s'" ..
      qed
      have A': "no_match noteIdPattern (p @ [c])"
      proof (rule ccontr)
        assume "\<not> no_match noteIdPattern (p @ [c])"
        from marker_at_end[OF A this] obtain q where q: "q \<noteq> []" "suffix q p"
          "begins_marker (q @ [c])" and m: "ms noteIdPattern (q @ [c]) \<noteq> []" by blast
        from step[OF q] have "ms standalonePattern (q @ s) = []" by simp
        moreover from marker_match_extends[OF m, of s'] have "ms standalonePattern (q @ s) \<noteq> []"
          unfolding Cons by simp
        ultimately show False by simp
      qed
      from "1.hyps"(1)[OF miss Cons H' I' A']
      have "no_match noteIdPattern ((p @ [c]) @ replace_all standalonePattern [] s')" .
      with res show ?thesis by simp
    qed
  next
    case (Cons t ts)
    from standalone_match_shorter[OF Cons] have len: "length t < length s" and suf: "suffix t s"
      by simp_all
    from suf obtain m where s: "s = m @ t" by (auto simp: suffix_def)
    have res: "replace_all standalonePattern [] s = replace_all standalonePattern [] t"
      using replace_all_hit[OF Cons len, of "[]"] by simp
    from H[rule_format, of "[]" s t ts] Cons have rest: "rest_ok u t" by simp
    have H': "\<forall>x y t' ts'. t = x @ y \<longrightarrow> ms standalonePattern y = t' # ts' \<longrightarrow>
                rest_ok ((u @ m) @ x) t'"
    proof (intro allI impI)
      fix x y t' ts' assume "t = x @ y" "ms standalonePattern y = t' # ts'"
      with H[rule_format, of "m @ x" y t' ts'] s show "rest_ok ((u @ m) @ x) t'" by simp
    qed
    have I': "\<forall>q. q \<noteq> [] \<longrightarrow> suffix q p \<longrightarrow> begins_marker q \<longrightarrow>
               (suffix q (u @ m) \<and> ms standalonePattern (q @ t) = []) \<or> pending q t"
    proof (intro allI impI)
      fix q assume ne: "q \<noteq> []" and sq: "suffix q p" and b: "begins_marker q"
      with I have "(suffix q u \<and> ms standalonePattern (q @ s) = []) \<or> pending q s" by blast
      then have "pending q t"
      proof
        assume "suffix q u \<and> ms standalonePattern (q @ s) = []"
        then have "suffix q u" ..
        with rest ne show ?thesis by (rule rest_ok_pending)
      next
        assume "pending q s"
        then show ?thesis using Cons by (rule pending_hit)
      qed
      then show "(suffix q (u @ m) \<and> ms standalonePattern (q @ t) = []) \<or> pending q t" ..
    qed
    from "1.hyps"(2)[OF Cons len H' I' A] res show ?thesis by simp
  qed
qed

lemma standalone_step_clean:
  assumes "markers_apart s"
  shows "no_match noteIdPattern (replace_all standalonePattern [] s)"
proof -
  have H: "\<forall>x y t ts. s = x @ y \<longrightarrow> ms standalonePattern y = t # ts \<longrightarrow> rest_ok ([] @ x) t"
    using assms unfolding markers_apart_def markers_apart_from_iff .
  have I: "\<forall>q. q \<noteq> [] \<longrightarrow> suffix q [] \<longrightarrow> begins_marker q \<longrightarrow>
             (suffix q [] \<and> ms standalonePattern (q @ s) = []) \<or> pending q s" by simp
  have A: "no_match noteIdPattern []" by (simp add: no_match_Nil noteIdPattern_def)
  from standalone_scan[OF H I A] show ?thesis by simp
qed


lemma standalone_head:
  assumes "ms standalonePattern s = t # ts"
  shows "\<exists>n i ws. id_ok i \<and> (\<forall>c\<in>set n. c = CHR ''\<newline>'') \<and> (\<forall>c\<in>set ws. is_space c) \<and>
           s = n @ ''<!-- Note ID: '' @ i @ '' -->'' @ ws @ t \<and> (t = [] \<or> \<not> is_space (hd t))"
proof -
  from assms have "t \<in> set (ms standalonePattern s)" by simp
  then obtain m where s: "s = m @ t" and mt: "mt standalonePattern m t" by (auto simp: ms_set)
  from standalone_mtD[OF mt] obtain n i ws where i: "id_ok i"
    and n: "\<forall>c\<in>set n. c = CHR ''\<newline>''" and ws: "\<forall>c\<in>set ws. is_space c"
    and m: "m = n @ ''<!-- Note ID: '' @ i @ '' -->'' @ ws" by blast
  let ?a = "takeWhile is_space t" and ?b = "dropWhile is_space t"
  have ws': "\<forall>c\<in>set (ws @ ?a). is_space c" using ws set_takeWhileD[of _ is_space t] by auto
  have b: "?b = [] \<or> \<not> is_space (hd ?b)" using hd_dropWhile[of is_space t] by blast
  from standalone_first[OF i ws' n b] obtain ts' where
    "ms standalonePattern (n @ ''<!-- Note ID: '' @ i @ '' -->'' @ (ws @ ?a) @ ?b) = ?b # ts'" by blast
  moreover have "n @ ''<!-- Note ID: '' @ i @ '' -->'' @ (ws @ ?a) @ ?b = s" using s m by simp
  ultimately have "t = ?b" using assms by simp
  with b have "t = [] \<or> \<not> is_space (hd t)" by simp
  moreover have "s = n @ ''<!-- Note ID: '' @ i @ '' -->'' @ ws @ t" using s m by simp
  ultimately show ?thesis using i n ws by blast
qed

lemma standalone_head_extends:
  assumes "ms standalonePattern s = t # ts" "t \<noteq> []"
  shows "\<exists>ts'. ms standalonePattern (s @ y) = (t @ y) # ts'"
proof -
  from standalone_head[OF assms(1)] obtain n i ws where i: "id_ok i"
    and n: "\<forall>c\<in>set n. c = CHR ''\<newline>''" and ws: "\<forall>c\<in>set ws. is_space c"
    and s: "s = n @ ''<!-- Note ID: '' @ i @ '' -->'' @ ws @ t"
    and t: "t = [] \<or> \<not> is_space (hd t)" by blast
  from t assms(2) have "t @ y = [] \<or> \<not> is_space (hd (t @ y))" by simp
  from standalone_first[OF i ws n this] s show ?thesis by simp
qed


lemma standalone_at_marker:
  assumes i: "id_ok i" and n: "\<forall>c\<in>set n. c = CHR ''\<newline>''"
  shows "ms standalonePattern (n @ ''<!-- Note ID: '' @ i @ '' -->'' @ us) \<noteq> []"
proof -
  let ?a = "takeWhile is_space us" and ?b = "dropWhile is_space us"
  have a: "\<forall>c\<in>set ?a. is_space c" using set_takeWhileD[of _ is_space us] by blast
  have b: "?b = [] \<or> \<not> is_space (hd ?b)" using hd_dropWhile[of is_space us] by blast
  from standalone_first[OF i a n b] show ?thesis by auto
qed

lemma standalone_miss_extends:
  assumes miss: "ms standalonePattern s = []"
    and Y: "dropWhile (\<lambda>c. c = CHR ''\<newline>'') (CHR ''\<newline>'' # Y) = c # r" "c \<noteq> CHR ''<''"
  shows "ms standalonePattern (s @ CHR ''\<newline>'' # Y) = []"
proof (rule ccontr)
  assume "ms standalonePattern (s @ CHR ''\<newline>'' # Y) \<noteq> []"
  then obtain m t where eq: "s @ CHR ''\<newline>'' # Y = m @ t" and mt: "mt standalonePattern m t"
    by (auto simp: ms_nonempty_iff)
  from standalone_mtD[OF mt] obtain n i ws where i: "id_ok i"
    and n: "\<forall>c\<in>set n. c = CHR ''\<newline>''"
    and m: "m = n @ ''<!-- Note ID: '' @ i @ '' -->'' @ ws" by blast
  let ?M = "''<!-- Note ID: '' @ i @ '' -->''"
  have "s @ CHR ''\<newline>'' # Y = n @ (?M @ ws @ t)" using eq m by simp
  then obtain us where
    us: "(s = n @ us \<and> us @ CHR ''\<newline>'' # Y = ?M @ ws @ t) \<or>
         (s @ us = n \<and> CHR ''\<newline>'' # Y = us @ ?M @ ws @ t)"
    unfolding append_eq_append_conv2 by blast
  then show False
  proof
    assume a: "s = n @ us \<and> us @ CHR ''\<newline>'' # Y = ?M @ ws @ t"
    then have "us @ CHR ''\<newline>'' # Y = ?M @ (ws @ t)" by simp
    then obtain vs where
      vs: "(us = ?M @ vs \<and> vs @ CHR ''\<newline>'' # Y = ws @ t) \<or>
           (us @ vs = ?M \<and> CHR ''\<newline>'' # Y = vs @ ws @ t)"
      unfolding append_eq_append_conv2 by blast
    then show False
    proof
      assume "us = ?M @ vs \<and> vs @ CHR ''\<newline>'' # Y = ws @ t"
      with a have "s = n @ ?M @ vs" by simp
      with standalone_at_marker[OF i n, of vs] miss show False by simp
    next
      assume b: "us @ vs = ?M \<and> CHR ''\<newline>'' # Y = vs @ ws @ t"
      show False
      proof (cases vs)
        case Nil
        with a b have "s = n @ ?M @ []" by simp
        with standalone_at_marker[OF i n, of "[]"] miss show False by simp
      next
        case (Cons d vs')
        with b have "d = CHR ''\<newline>''" by simp
        with Cons have "CHR ''\<newline>'' \<in> set vs" by simp
        moreover from b have "set vs \<subseteq> set ?M" by (metis Un_upper2 set_append)
        ultimately show False using marker_no_nl[OF i] by blast
      qed
    qed
  next
    assume a: "s @ us = n \<and> CHR ''\<newline>'' # Y = us @ ?M @ ws @ t"
    then have "set us \<subseteq> set n" by (metis Un_upper2 set_append)
    with n have un: "\<forall>c\<in>set us. c = CHR ''\<newline>''" by blast
    from a have "CHR ''\<newline>'' # Y = us @ CHR ''<'' # (''!-- Note ID: '' @ i @ '' -->'' @ ws @ t)"
      by simp
    then have "dropWhile (\<lambda>c. c = CHR ''\<newline>'') (CHR ''\<newline>'' # Y) =
               dropWhile (\<lambda>c. c = CHR ''\<newline>'')
                 (us @ CHR ''<'' # (''!-- Note ID: '' @ i @ '' -->'' @ ws @ t))"
      by (rule arg_cong)
    also have "\<dots> = CHR ''<'' # (''!-- Note ID: '' @ i @ '' -->'' @ ws @ t)"
      using un by (simp add: dropWhile_append2)
    finally show False using Y by simp
  qed
qed

lemma after_matches_Nil: "after_matches [] = []"
  by (simp add: after_matches_miss standalone_no_match_Nil)

lemma after_matches_extends:
  assumes Y: "dropWhile (\<lambda>c. c = CHR ''\<newline>'') (CHR ''\<newline>'' # Y) = c # r" "c \<noteq> CHR ''<''"
  shows "after_matches s \<noteq> [] \<Longrightarrow>
         after_matches (s @ CHR ''\<newline>'' # Y) = after_matches s @ CHR ''\<newline>'' # Y"
proof (induction s rule: after_matches.induct)
  case (1 s)
  show ?case
  proof (cases "ms standalonePattern s")
    case Nil
    from standalone_miss_extends[OF Nil Y] have "ms standalonePattern (s @ CHR ''\<newline>'' # Y) = []" .
    then have "after_matches (s @ CHR ''\<newline>'' # Y) = s @ CHR ''\<newline>'' # Y"
      by (rule after_matches_miss)
    with after_matches_miss[OF Nil] show ?thesis by simp
  next
    case (Cons t ts)
    from standalone_match_shorter[OF Cons] have len: "length t < length s" by simp
    have am: "after_matches s = after_matches t" using Cons by (rule after_matches_hit)
    with "1.prems" have ne: "after_matches t \<noteq> []" by simp
    then have "t \<noteq> []" using after_matches_Nil by auto
    from standalone_head_extends[OF Cons this, of "CHR ''\<newline>'' # Y"] obtain ts' where
      "ms standalonePattern (s @ CHR ''\<newline>'' # Y) = (t @ CHR ''\<newline>'' # Y) # ts'" by blast
    then have "after_matches (s @ CHR ''\<newline>'' # Y) = after_matches (t @ CHR ''\<newline>'' # Y)"
      by (rule after_matches_hit)
    with "1.IH"[OF Cons len ne] am show ?thesis by simp
  qed
qed

lemma rest_ok_cut:
  assumes Y: "dropWhile (\<lambda>c. c = CHR ''\<newline>'') (CHR ''\<newline>'' # Y) = c # r" "c \<noteq> CHR ''<''"
    and "rest_ok u (t @ CHR ''\<newline>'' # Y)"
  shows "rest_ok u t"
proof (cases "after_matches t")
  case Nil
  then show ?thesis by (simp add: rest_ok_def)
next
  case (Cons d t')
  then have "after_matches t \<noteq> []" by simp
  from after_matches_extends[OF Y this] Cons
  have "after_matches (t @ CHR ''\<newline>'' # Y) = d # (t' @ CHR ''\<newline>'' # Y)" by simp
  with assms(3) have "\<not> continues_marker u d" by (simp add: rest_ok_def)
  with Cons show ?thesis by (simp add: rest_ok_def)
qed

lemma markers_apart_cut:
  assumes Y: "dropWhile (\<lambda>c. c = CHR ''\<newline>'') (CHR ''\<newline>'' # Y) = c # r" "c \<noteq> CHR ''<''"
    and "markers_apart (x @ CHR ''\<newline>'' # Y)"
  shows "markers_apart x"
  unfolding markers_apart_def markers_apart_from_iff
proof (intro allI impI)
  fix x' y' t ts assume x: "x = x' @ y'" and m: "ms standalonePattern y' = t # ts"
  show "rest_ok ([] @ x') t"
  proof (cases "t = []")
    case True
    then show ?thesis by (simp add: rest_ok_def after_matches_Nil)
  next
    case False
    from standalone_head_extends[OF m False, of "CHR ''\<newline>'' # Y"] obtain ts' where
      m': "ms standalonePattern (y' @ CHR ''\<newline>'' # Y) = (t @ CHR ''\<newline>'' # Y) # ts'" by blast
    have "x @ CHR ''\<newline>'' # Y = x' @ (y' @ CHR ''\<newline>'' # Y)" using x by simp
    with assms(3) m' have "rest_ok ([] @ x') (t @ CHR ''\<newline>'' # Y)"
      unfolding markers_apart_def markers_apart_from_iff by blast
    with Y show ?thesis by (rule rest_ok_cut)
  qed
qed

lemma footer_step_cut:
  "replace_first footerPattern [] B = B \<or>
   (\<exists>Y c r. B = replace_first footerPattern [] B @ CHR ''\<newline>'' # Y \<and>
      dropWhile (\<lambda>c. c = CHR ''\<newline>'') (CHR ''\<newline>'' # Y) = c # r \<and> c \<noteq> CHR ''<'')"
proof -
  from replace_first_cases[of footerPattern "[]" B] show ?thesis
  proof
    assume "replace_first footerPattern [] B = B" then show ?thesis by simp
  next
    assume "\<exists>x y t ts. B = x @ y \<and> ms footerPattern y = t # ts \<and>
              replace_first footerPattern [] B = x @ [] @ t"
    then obtain x y t ts where B: "B = x @ y" and ms: "ms footerPattern y = t # ts" and
      res: "replace_first footerPattern [] B = x @ [] @ t" by blast
    from ms have "t \<in> set (ms footerPattern y)" by simp
    then obtain m where y: "y = m @ t" and mt: "mt footerPattern m t" by (auto simp: ms_set)
    from footer_mtD[OF mt] obtain l1 g i ws where t: "t = []" and
      m: "m = ''\<newline>\<newline>---\<newline>*Created:'' @ l1 @ ''\<newline>'' @ g @ ''<!-- Note ID: '' @ i @ '' -->'' @ ws"
      by blast
    let ?Y = "''\<newline>---\<newline>*Created:'' @ l1 @ ''\<newline>'' @ g @ ''<!-- Note ID: '' @ i @ '' -->'' @ ws"
    have r: "replace_first footerPattern [] B = x" using res t by simp
    have "B = x @ CHR ''\<newline>'' # ?Y" using B y t m by simp
    moreover have "dropWhile (\<lambda>c. c = CHR ''\<newline>'') (CHR ''\<newline>'' # ?Y) =
        CHR ''-'' # (''--\<newline>*Created:'' @ l1 @ ''\<newline>'' @ g @ ''<!-- Note ID: '' @ i @ '' -->'' @ ws)"
      by simp
    moreover have "CHR ''-'' \<noteq> CHR ''<''" by simp
    ultimately have "B = x @ CHR ''\<newline>'' # ?Y \<and>
      dropWhile (\<lambda>c. c = CHR ''\<newline>'') (CHR ''\<newline>'' # ?Y) =
        CHR ''-'' # (''--\<newline>*Created:'' @ l1 @ ''\<newline>'' @ g @ ''<!-- Note ID: '' @ i @ '' -->'' @ ws) \<and>
      CHR ''-'' \<noteq> CHR ''<''" by (intro conjI)
    then show ?thesis unfolding r
      by (intro disjI2 exI[of _ ?Y] exI[of _ "CHR ''-''"]
          exI[of _ "''--\<newline>*Created:'' @ l1 @ ''\<newline>'' @ g @ ''<!-- Note ID: '' @ i @ '' -->'' @ ws"])
  qed
qed

lemma footer_step_apart:
  assumes "markers_apart B" shows "markers_apart (replace_first footerPattern [] B)"
proof -
  from footer_step_cut[of B] show ?thesis
  proof
    assume "replace_first footerPattern [] B = B" with assms show ?thesis by simp
  next
    assume "\<exists>Y c r. B = replace_first footerPattern [] B @ CHR ''\<newline>'' # Y \<and>
      dropWhile (\<lambda>c. c = CHR ''\<newline>'') (CHR ''\<newline>'' # Y) = c # r \<and> c \<noteq> CHR ''<''"
    then obtain Y c r where B: "B = replace_first footerPattern [] B @ CHR ''\<newline>'' # Y"
      and Y: "dropWhile (\<lambda>c. c = CHR ''\<newline>'') (CHR ''\<newline>'' # Y) = c # r" "c \<noteq> CHR ''<''"
      by blast
    from assms B have "markers_apart (replace_first footerPattern [] B @ CHR ''\<newline>'' # Y)" by simp
    with Y show ?thesis by (rule markers_apart_cut)
  qed
qed

lemma separator_step_prefix: "prefix (replace_all separatorPattern [] s) s"
proof (induction s)
  case Nil
  have "ms separatorPattern [] = []" by (simp add: separatorPattern_def)
  then show ?case by (simp add: replace_all_Nil_nomatch)
next
  case (Cons c s)
  show ?case
  proof (cases "ms separatorPattern (c # s) = []")
    case True
    then show ?thesis using Cons by (simp add: replace_all_miss)
  next
    case False
    from separator_hit[OF this] obtain ts where hit: "ms separatorPattern (c # s) = [] # ts" by blast
    have none: "ms separatorPattern [] = []" by (simp add: separatorPattern_def)
    have "replace_all separatorPattern [] (c # s) = [] @ replace_all separatorPattern [] []"
      by (rule replace_all_hit[OF hit]) simp
    then show ?thesis using none by (simp add: replace_all_Nil_nomatch)
  qed
qed

text \<open>
  The nested marker below is not a body whose markers stand apart; a marker that is
  commented out is.
\<close>

lemma nested_not_apart: "\<not> markers_apart ''<!-- Note ID: <!-- Note ID: A -->A -->''"
  by code_simp

lemma commented_marker_apart: "markers_apart ''<!--\<newline><!-- Note ID: A -->\<newline>-->''"
  by code_simp


text \<open>
  C2 as stated fails: the markers are removed in one pass from left to right, and
  the text on both sides of a removed marker can join into a new marker.
\<close>

theorem nested_marker_counterexample:
  "detectNoteId ''<!-- Note ID: <!-- Note ID: A -->A -->'' = Some ''A'' \<and>
   Create_stripExistingFooter ''<!-- Note ID: <!-- Note ID: A -->A -->'' = ''<!-- Note ID: A -->'' \<and>
   detectNoteId (Create_stripExistingFooter ''<!-- Note ID: <!-- Note ID: A -->A -->'') = Some ''A''"
  by code_simp


text \<open>
  C2, as the code has it. For every body whose markers stand apart, however many
  markers it has and whatever other text, angle brackets included, it holds: no
  marker is detected in the stripped body. The pass deletes every marker
  occurrence of the body and does not look at its output again; a marker can only
  remain when the text before a deleted marker begins a marker that the text after
  it continues.
\<close>

theorem strip_removes_all_markers:
  assumes "markers_apart B"
  shows "detectNoteId (Create_stripExistingFooter B) = None"
proof -
  let ?s1 = "replace_first footerPattern [] B"
  let ?s2 = "replace_all standalonePattern [] ?s1"
  let ?s3 = "replace_all separatorPattern [] ?s2"
  from assms have "markers_apart ?s1" by (rule footer_step_apart)
  then have s2: "no_match noteIdPattern ?s2" by (rule standalone_step_clean)
  obtain z where "?s2 = ?s3 @ z" using separator_step_prefix[of ?s2] by (auto simp: prefix_def)
  with s2 have "no_match noteIdPattern (?s3 @ z)" by simp
  then have "no_match noteIdPattern ?s3" by (rule no_marker_prefix)
  then have "no_match noteIdPattern (normalize ?s3)" by (rule no_marker_normalize)
  then show ?thesis
    by (simp add: Create_stripExistingFooter_def Let_def replace_newlines_normalize detect_None_iff)
qed

theorem strip_removes_all_markers_witness:
  "detectNoteId ''a < b\<newline><!-- Note ID: A-1 -->\<newline>more <!-- Note ID: B2 --> end <\<newline><!-- Note ID: C3 -->'' = Some ''A-1'' \<and>
   Create_stripExistingFooter ''a < b\<newline><!-- Note ID: A-1 -->\<newline>more <!-- Note ID: B2 --> end <\<newline><!-- Note ID: C3 -->'' =
     ''a < bmore end <'' \<and>
   detectNoteId
     (Create_stripExistingFooter ''a < b\<newline><!-- Note ID: A-1 -->\<newline>more <!-- Note ID: B2 --> end <\<newline><!-- Note ID: C3 -->'') =
     None"
proof -
  have a: "markers_apart ''a < b\<newline><!-- Note ID: A-1 -->\<newline>more <!-- Note ID: B2 --> end <\<newline><!-- Note ID: C3 -->''"
    by code_simp
  have b: "detectNoteId ''a < b\<newline><!-- Note ID: A-1 -->\<newline>more <!-- Note ID: B2 --> end <\<newline><!-- Note ID: C3 -->'' = Some ''A-1''"
    by code_simp
  have c: "Create_stripExistingFooter ''a < b\<newline><!-- Note ID: A-1 -->\<newline>more <!-- Note ID: B2 --> end <\<newline><!-- Note ID: C3 -->'' =
     ''a < bmore end <''"
    by code_simp
  from strip_removes_all_markers[OF a] b c show ?thesis by simp
qed


section \<open>Fixed points of the stripper\<close>

text \<open>
  No step of the stripper adds a character other than a newline, and a step that
  finds its pattern removes at least one.
\<close>

lemma replace_first_count_le:
  "length (filter P (replace_first r [] s)) \<le> length (filter P s)"
proof (induction s)
  case Nil
  show ?case
  proof (cases "ms r []")
    case Nil
    then show ?thesis by simp
  next
    case (Cons t ts)
    then have "t \<in> set (ms r [])" by simp
    then have "suffix t []" by (rule ms_suffix)
    then show ?thesis using Cons by simp
  qed
next
  case (Cons c s)
  show ?case
  proof (cases "ms r (c # s)")
    case Nil
    then show ?thesis using Cons.IH by simp
  next
    case (Cons t ts)
    then have "t \<in> set (ms r (c # s))" by simp
    then have "suffix t (c # s)" by (rule ms_suffix)
    then obtain x where "c # s = x @ t" by (auto simp: suffix_def)
    then have "length (filter P t) \<le> length (filter P (c # s))" by (simp del: filter.simps)
    then show ?thesis using Cons by simp
  qed
qed

lemma match_removes:
  assumes "ms r s = t # ts" and hit: "\<And>m t. mt r m t \<Longrightarrow> \<exists>x\<in>set m. P x"
  shows "length (filter P t) < length (filter P s) \<and> length t < length s"
proof -
  from assms(1) have "t \<in> set (ms r s)" by simp
  then obtain m where s: "s = m @ t" and mt: "mt r m t" by (auto simp: ms_set)
  from hit[OF mt] obtain x where x: "x \<in> set m" "P x" by blast
  then have "filter P m \<noteq> []" by (auto simp: filter_empty_conv)
  then have "0 < length (filter P m)" by simp
  moreover from x have "m \<noteq> []" by auto
  ultimately show ?thesis using s by simp
qed

lemma replace_first_count_less:
  assumes "\<not> no_match r s" and hit: "\<And>m t. mt r m t \<Longrightarrow> \<exists>x\<in>set m. P x"
  shows "length (filter P (replace_first r [] s)) < length (filter P s)"
  using assms(1)
proof (induction s)
  case Nil
  then obtain t ts where ms: "ms r [] = t # ts" by (cases "ms r []") (simp_all add: no_match_Nil)
  from match_removes[OF ms hit] show ?case by simp
next
  case (Cons c s)
  show ?case
  proof (cases "ms r (c # s)")
    case Nil
    with Cons.prems have "\<not> no_match r s" by (simp add: no_match_Cons)
    from Cons.IH[OF this] Nil show ?thesis by simp
  next
    case (Cons t ts)
    from match_removes[OF Cons hit] Cons show ?thesis by simp
  qed
qed

lemma replace_all_count_le:
  "length (filter P (replace_all r [] s)) \<le> length (filter P s)"
proof (induction r "[]::string" s rule: replace_all.induct)
  case (1 r s)
  note unfold = replace_all.simps[of r "[]" s]
  show ?case
  proof (cases "ms r s")
    case Nil
    show ?thesis
    proof (cases s)
      case Nil
      then show ?thesis using \<open>ms r s = []\<close> unfold by simp
    next
      case (Cons c s')
      then show ?thesis using \<open>ms r s = []\<close> unfold 1(1)[OF \<open>ms r s = []\<close> Cons] by simp
    qed
  next
    case (Cons t ts)
    then have "t \<in> set (ms r s)" by simp
    then have "suffix t s" by (rule ms_suffix)
    then obtain x where "s = x @ t" by (auto simp: suffix_def)
    then have sub: "length (filter P t) \<le> length (filter P s)" by simp
    show ?thesis
    proof (cases "length t < length s")
      case True
      then show ?thesis using 1(2)[OF Cons True] Cons sub unfold by simp
    next
      case False
      show ?thesis
      proof (cases s)
        case Nil
        then show ?thesis using Cons False unfold by simp
      next
        case (Cons c s')
        then show ?thesis using \<open>ms r s = t # ts\<close> False unfold
            1(3)[OF \<open>ms r s = t # ts\<close> False Cons] by simp
      qed
    qed
  qed
qed

lemma replace_all_count_less:
  assumes "\<not> no_match r s" and hit: "\<And>m t. mt r m t \<Longrightarrow> \<exists>x\<in>set m. P x"
  shows "length (filter P (replace_all r [] s)) < length (filter P s)"
  using assms(1)
proof (induction s)
  case Nil
  then obtain t ts where ms: "ms r [] = t # ts" by (cases "ms r []") (simp_all add: no_match_Nil)
  from match_removes[OF ms hit] show ?case by simp
next
  case (Cons c s)
  show ?case
  proof (cases "ms r (c # s)")
    case Nil
    with Cons.prems have "\<not> no_match r s" by (simp add: no_match_Cons)
    from Cons.IH[OF this] Nil show ?thesis by (simp add: replace_all_miss)
  next
    case (Cons t ts)
    from match_removes[OF Cons hit] have a: "length (filter P t) < length (filter P (c # s))"
      and b: "length t < length (c # s)" by simp_all
    have "replace_all r [] (c # s) = [] @ replace_all r [] t" using Cons b by (rule replace_all_hit)
    moreover have "length (filter P (replace_all r [] t)) \<le> length (filter P t)"
      by (rule replace_all_count_le)
    ultimately show ?thesis using a by simp
  qed
qed

lemma footer_has_text: "mt footerPattern m t \<Longrightarrow> \<exists>x\<in>set m. x \<noteq> CHR ''\<newline>''"
proof -
  assume "mt footerPattern m t"
  from footer_mtD[OF this] obtain l1 g i ws where
    "m = ''\<newline>\<newline>---\<newline>*Created:'' @ l1 @ ''\<newline>'' @ g @ ''<!-- Note ID: '' @ i @ '' -->'' @ ws"
    by blast
  then have "CHR ''-'' \<in> set m" by simp
  then show ?thesis by (intro bexI[of _ "CHR ''-''"]) simp_all
qed

lemma standalone_has_text: "mt standalonePattern m t \<Longrightarrow> \<exists>x\<in>set m. x \<noteq> CHR ''\<newline>''"
proof -
  assume "mt standalonePattern m t"
  from standalone_mtD[OF this] obtain n i ws where
    "m = n @ ''<!-- Note ID: '' @ i @ '' -->'' @ ws" by blast
  then have "CHR ''<'' \<in> set m" by simp
  then show ?thesis by (intro bexI[of _ "CHR ''<''"]) simp_all
qed

lemma separator_has_text: "mt separatorPattern m t \<Longrightarrow> \<exists>x\<in>set m. x \<noteq> CHR ''\<newline>''"
proof -
  assume "mt separatorPattern m t"
  from separator_mtD[OF this] obtain ws where "m = ''\<newline>\<newline>---'' @ ws" by blast
  then have "CHR ''-'' \<in> set m" by simp
  then show ?thesis by (intro bexI[of _ "CHR ''-''"]) simp_all
qed

lemma normalize_count:
  "length (filter (\<lambda>x. x \<noteq> CHR ''\<newline>'') (normalize s)) = length (filter (\<lambda>x. x \<noteq> CHR ''\<newline>'') s)"
proof -
  from normalize_cases[of s] show ?thesis
  proof
    assume "normalize s = s" then show ?thesis by simp
  next
    assume "\<exists>p n. s = p @ CHR ''\<newline>'' # n \<and> n \<noteq> [] \<and> (\<forall>c\<in>set n. c = CHR ''\<newline>'') \<and>
      normalize s = p @ ''\<newline>''"
    then obtain p n where s: "s = p @ CHR ''\<newline>'' # n" and nn: "\<forall>c\<in>set n. c = CHR ''\<newline>''"
      and ns: "normalize s = p @ ''\<newline>''" by blast
    from nn have "filter (\<lambda>x. x \<noteq> CHR ''\<newline>'') n = []" by (simp add: filter_empty_conv)
    then have "length (filter (\<lambda>x. x \<noteq> CHR ''\<newline>'') (p @ ''\<newline>'')) =
               length (filter (\<lambda>x. x \<noteq> CHR ''\<newline>'') (p @ CHR ''\<newline>'' # n))"
      by simp
    then show ?thesis unfolding ns by (simp only: s)
  qed
qed

lemma marker_somewhere_standalone:
  assumes "\<not> no_match noteIdPattern s"
  shows "\<not> no_match standalonePattern s"
proof -
  from assms obtain v where v: "suffix v s" "ms noteIdPattern v \<noteq> []"
    unfolding no_match_def by blast
  from marker_gives_standalone[OF v(2)] v(1) show ?thesis unfolding no_match_def by blast
qed

lemma strip_removes_text:
  assumes "\<not> no_match noteIdPattern B \<or> \<not> no_match separatorPattern B"
  shows "length (filter (\<lambda>x. x \<noteq> CHR ''\<newline>'') (Create_stripExistingFooter B)) <
         length (filter (\<lambda>x. x \<noteq> CHR ''\<newline>'') B)"
proof -
  let ?f = "\<lambda>s. length (filter (\<lambda>x. x \<noteq> CHR ''\<newline>'') s)"
  let ?s1 = "replace_first footerPattern [] B"
  let ?s2 = "replace_all standalonePattern [] ?s1"
  let ?s3 = "replace_all separatorPattern [] ?s2"
  have strip: "Create_stripExistingFooter B = normalize ?s3"
    by (simp add: Create_stripExistingFooter_def Let_def replace_newlines_normalize)
  have l1: "?f ?s1 \<le> ?f B" by (rule replace_first_count_le)
  have l2: "?f ?s2 \<le> ?f ?s1" by (rule replace_all_count_le)
  have l3: "?f ?s3 \<le> ?f ?s2" by (rule replace_all_count_le)
  have l4: "?f (normalize ?s3) = ?f ?s3" by (rule normalize_count)
  have "?f ?s3 < ?f B"
  proof (cases "no_match noteIdPattern B")
    case False
    show ?thesis
    proof (cases "no_match footerPattern B")
      case True
      then have s1: "?s1 = B" by (rule replace_first_no_match)
      from False have "\<not> no_match standalonePattern B" by (rule marker_somewhere_standalone)
      then have "?f (replace_all standalonePattern [] B) < ?f B"
        using standalone_has_text by (rule replace_all_count_less)
      with l3 s1 show ?thesis by simp
    next
      case False
      then have "?f ?s1 < ?f B" using footer_has_text by (rule replace_first_count_less)
      with l2 l3 show ?thesis by linarith
    qed
  next
    case True
    with assms have sep: "\<not> no_match separatorPattern B" by blast
    have s1: "?s1 = B" by (rule replace_first_no_match[OF no_marker_no_footer[OF True]])
    have s2: "replace_all standalonePattern [] B = B"
      by (rule replace_all_no_match[OF no_marker_no_standalone[OF True]])
    from sep have "?f (replace_all separatorPattern [] B) < ?f B"
      using separator_has_text by (rule replace_all_count_less)
    with s1 s2 show ?thesis by simp
  qed
  with strip l4 show ?thesis by simp
qed

lemma strip_is_normalize_iff:
  "Create_stripExistingFooter B = normalize B \<longleftrightarrow>
   detectNoteId B = None \<and> find_match separatorPattern B = None"
proof
  assume eq: "Create_stripExistingFooter B = normalize B"
  show "detectNoteId B = None \<and> find_match separatorPattern B = None"
  proof (rule ccontr)
    assume "\<not> (detectNoteId B = None \<and> find_match separatorPattern B = None)"
    then have "\<not> no_match noteIdPattern B \<or> \<not> no_match separatorPattern B"
      by (simp add: detect_None_iff find_match_None)
    from strip_removes_text[OF this] show False
      unfolding eq normalize_count by simp
  qed
next
  assume "detectNoteId B = None \<and> find_match separatorPattern B = None"
  then show "Create_stripExistingFooter B = normalize B" by (simp add: strip_unmarked)
qed

lemma strip_normalized: "normalize (Create_stripExistingFooter B) = Create_stripExistingFooter B"
  by (simp add: Create_stripExistingFooter_def Let_def replace_newlines_normalize normalize_idem)


text \<open>
  C3 as stated fails: the stripper removes one trailing separator per pass, so a
  body that ends in two bare separators (and has no marker, hence no footer) needs
  two passes, and a bare trailing separator is more than newline normalisation.
\<close>

theorem strip_not_idempotent_counterexample:
  "detectNoteId ''A\<newline>\<newline>---\<newline>\<newline>---'' = None \<and>
   Create_stripExistingFooter ''A\<newline>\<newline>---\<newline>\<newline>---'' = ''A\<newline>\<newline>---'' \<and>
   Create_stripExistingFooter (Create_stripExistingFooter ''A\<newline>\<newline>---\<newline>\<newline>---'') = ''A'' \<and>
   normalize ''A\<newline>\<newline>---\<newline>\<newline>---'' = ''A\<newline>\<newline>---\<newline>\<newline>---''"
  by code_simp


text \<open>
  C3, as the code has it. For every body, stripping is trailing-newline
  normalisation alone exactly when the body has no identity marker and does not end
  in a bare separator (\<open>\n\n---\<close> followed only by whitespace); and stripping the
  stripped body again changes nothing exactly when the stripped body has no
  identity marker and does not end in a bare separator.
\<close>

theorem strip_fixed_points:
  "(Create_stripExistingFooter B = normalize B) =
     (detectNoteId B = None \<and> find_match separatorPattern B = None) \<and>
   (Create_stripExistingFooter (Create_stripExistingFooter B) = Create_stripExistingFooter B) =
     (detectNoteId (Create_stripExistingFooter B) = None \<and>
      find_match separatorPattern (Create_stripExistingFooter B) = None)"
proof -
  have "(Create_stripExistingFooter (Create_stripExistingFooter B) = Create_stripExistingFooter B) =
        (Create_stripExistingFooter (Create_stripExistingFooter B) =
           normalize (Create_stripExistingFooter B))"
    by (simp only: strip_normalized)
  then show ?thesis by (simp only: strip_is_normalize_iff simp_thms)
qed

theorem strip_fixed_points_witness:
  "Create_stripExistingFooter ''Hello\<newline>\<newline>\<newline>'' = normalize ''Hello\<newline>\<newline>\<newline>'' \<and>
   Create_stripExistingFooter (Create_stripExistingFooter ''Hello\<newline>\<newline>\<newline>'') =
     Create_stripExistingFooter ''Hello\<newline>\<newline>\<newline>'' \<and>
   Create_stripExistingFooter ''A\<newline>\<newline>---'' \<noteq> normalize ''A\<newline>\<newline>---'' \<and>
   Create_stripExistingFooter (Create_stripExistingFooter ''A\<newline>\<newline>---'') =
     Create_stripExistingFooter ''A\<newline>\<newline>---''"
proof -
  have a: "detectNoteId ''Hello\<newline>\<newline>\<newline>'' = None" by code_simp
  have b: "find_match separatorPattern ''Hello\<newline>\<newline>\<newline>'' = None" by code_simp
  have c: "detectNoteId (Create_stripExistingFooter ''Hello\<newline>\<newline>\<newline>'') = None" by code_simp
  have d: "find_match separatorPattern (Create_stripExistingFooter ''Hello\<newline>\<newline>\<newline>'') = None"
    by code_simp
  have e: "find_match separatorPattern ''A\<newline>\<newline>---'' \<noteq> None" by code_simp
  have f: "detectNoteId (Create_stripExistingFooter ''A\<newline>\<newline>---'') = None" by code_simp
  have g: "find_match separatorPattern (Create_stripExistingFooter ''A\<newline>\<newline>---'') = None"
    by code_simp
  note h = strip_fixed_points[of "''Hello\<newline>\<newline>\<newline>''"]
  note k = strip_fixed_points[of "''A\<newline>\<newline>---''"]
  have 1: "Create_stripExistingFooter ''Hello\<newline>\<newline>\<newline>'' = normalize ''Hello\<newline>\<newline>\<newline>''"
    unfolding h[THEN conjunct1] using a b by (rule conjI)
  have 2: "Create_stripExistingFooter (Create_stripExistingFooter ''Hello\<newline>\<newline>\<newline>'') =
     Create_stripExistingFooter ''Hello\<newline>\<newline>\<newline>''"
    unfolding h[THEN conjunct2] using c d by (rule conjI)
  have 3: "Create_stripExistingFooter ''A\<newline>\<newline>---'' \<noteq> normalize ''A\<newline>\<newline>---''"
    unfolding k[THEN conjunct1] using e by (simp only: simp_thms not_False_eq_True)
  have 4: "Create_stripExistingFooter (Create_stripExistingFooter ''A\<newline>\<newline>---'') =
     Create_stripExistingFooter ''A\<newline>\<newline>---''"
    unfolding k[THEN conjunct2] using f g by (rule conjI)
  from 1 2 3 4 show ?thesis by (intro conjI)
qed


section \<open>The three copies of the stripper agree\<close>

text \<open>
  C10. The footer-stripping functions of \<open>Create\<close>, of the enhanced \<open>UpdateText\<close>
  and of \<open>BatchUpdate\<close> are the same function: on every body all three return the
  same text.
\<close>

theorem strip_copies_agree:
  "UpdateText_stripExistingFooter content = Create_stripExistingFooter content \<and>
   BatchUpdate_stripExistingFooter content = Create_stripExistingFooter content"
  unfolding UpdateText_stripExistingFooter_def BatchUpdate_stripExistingFooter_def
    Create_stripExistingFooter_def footerPattern_def standalonePattern_def
    separatorPattern_def newlinesPattern_def Let_def
  by simp



end
